theory Spec2Isabelle
  imports Main "HOL-Library.Sublist"
begin

section \<open>JavaScript values\<close>

text \<open>
  A JavaScript string is a sequence of code units and \<open>length\<close> counts code units. The
  model takes \<^typ>\<open>string\<close> for it: one \<^typ>\<open>char\<close> is one code unit, so the strings of the
  model are the JavaScript strings whose code units are below 256 (Latin-1).
  \<open>Date.now()\<close> is a parameter of every operation that reads the clock.
\<close>

text \<open>\<open>xs.join(sep)\<close>\<close>

fun join :: "string \<Rightarrow> string list \<Rightarrow> string" where
  "join sep [] = []"
| "join sep [x] = x"
| "join sep (x # y # ys) = x @ sep @ join sep (y # ys)"

text \<open>\<open>s.substring(0, n)\<close>\<close>

definition substring0 :: "nat \<Rightarrow> string \<Rightarrow> string" where
  "substring0 n s = take n s"

text \<open>\<open>xs.slice(-n)\<close>: the last \<open>n\<close> elements, all of them when there are fewer.\<close>

definition sliceLast :: "nat \<Rightarrow> 'a list \<Rightarrow> 'a list" where
  "sliceLast n xs = drop (length xs - n) xs"

text \<open>
  \<open>[...new Set(xs)]\<close>: the constructor adds the elements one by one, \<open>add\<close> does nothing
  for an element that is already there, and iteration follows insertion order.
\<close>

definition setAdd :: "'a list \<Rightarrow> 'a \<Rightarrow> 'a list" where
  "setAdd acc x = (if x \<in> set acc then acc else acc @ [x])"

definition newSet :: "'a list \<Rightarrow> 'a list" where
  "newSet xs = foldl setAdd [] xs"

text \<open>
  A \<open>Map\<close> is the list of its entries in insertion order. \<open>set\<close> on a key that is present
  replaces the value where the entry stands; on a new key it appends the entry.
\<close>

type_synonym ('k, 'v) jsmap = "('k \<times> 'v) list"

fun mapSet :: "'k \<Rightarrow> 'v \<Rightarrow> ('k, 'v) jsmap \<Rightarrow> ('k, 'v) jsmap" where
  "mapSet k v [] = [(k, v)]"
| "mapSet k v ((k', v') # m) = (if k' = k then (k, v) # m else (k', v') # mapSet k v m)"

definition mapDelete :: "'k \<Rightarrow> ('k, 'v) jsmap \<Rightarrow> ('k, 'v) jsmap" where
  "mapDelete k m = filter (\<lambda>e. fst e \<noteq> k) m"

definition mapGet :: "('k, 'v) jsmap \<Rightarrow> 'k \<Rightarrow> 'v option" where
  "mapGet m k = map_of m k"

definition mapKeys :: "('k, 'v) jsmap \<Rightarrow> 'k list" where
  "mapKeys m = map fst m"

section \<open>The context manager (context-manager.js)\<close>

record digest =
  d_from :: string
  d_to :: string
  d_subject :: string
  d_date :: string
  d_type :: string
  summary :: string
  keyPoints :: "string list"
  actionItems :: "string list"
  dates :: "string list"
  amounts :: "string list"
  actionRequired :: bool
  fullBodyLength :: nat

text \<open>A cache entry is \<open>{...digest, cachedAt: Date.now()}\<close>.\<close>

record cached = digest +
  cachedAt :: nat

record turn =
  role :: string
  content :: string
  timestamp :: nat

record contextManager =
  emailCache :: "(string, cached) jsmap"
  activeEmailIds :: "string list"
  conversationHistory :: "turn list"
  maxHistory :: nat
  maxCache :: nat

text \<open>The constructor.\<close>

definition newContextManager :: contextManager where
  "newContextManager =
     \<lparr>emailCache = [], activeEmailIds = [], conversationHistory = [],
      maxHistory = 10, maxCache = 50\<rparr>"

definition stamp :: "digest \<Rightarrow> nat \<Rightarrow> cached" where
  "stamp d now = digest.extend d (cached.fields now)"

text \<open>
  \<open>cacheEmail\<close>: \<open>keys().next().value\<close> of an empty map is \<open>undefined\<close>, and deleting it
  does nothing.
\<close>

definition cacheEmail :: "string \<Rightarrow> digest \<Rightarrow> nat \<Rightarrow> contextManager \<Rightarrow> contextManager" where
  "cacheEmail messageId d now s =
     (let c = (if length (emailCache s) \<ge> maxCache s
               then (case emailCache s of [] \<Rightarrow> [] | (firstKey, _) # _ \<Rightarrow> mapDelete firstKey (emailCache s))
               else emailCache s)
      in s\<lparr>emailCache := mapSet messageId (stamp d now) c\<rparr>)"

definition getCachedEmail :: "contextManager \<Rightarrow> string \<Rightarrow> cached option" where
  "getCachedEmail s messageId = mapGet (emailCache s) messageId"

text \<open>The argument \<open>ids\<close> is an array of ids or one id (\<open>Array.isArray(ids) ? ids : [ids]\<close>).\<close>

datatype ids = One string | Many "string list"

fun toArray :: "ids \<Rightarrow> string list" where
  "toArray (One i) = [i]"
| "toArray (Many xs) = xs"

definition setActiveEmails :: "ids \<Rightarrow> contextManager \<Rightarrow> contextManager" where
  "setActiveEmails i s = s\<lparr>activeEmailIds := toArray i\<rparr>"

definition addActiveEmails :: "ids \<Rightarrow> contextManager \<Rightarrow> contextManager" where
  "addActiveEmails i s =
     (let newIds = toArray i in s\<lparr>activeEmailIds := newSet (activeEmailIds s @ newIds)\<rparr>)"

text \<open>\<open>.map(id => this.emailCache.get(id)).filter(Boolean)\<close>: an entry is an object, hence truthy.\<close>

definition getActiveDigests :: "contextManager \<Rightarrow> cached list" where
  "getActiveDigests s = List.map_filter (mapGet (emailCache s)) (activeEmailIds s)"

text \<open>The \<open>while\<close> loop of \<open>addExchange\<close>: \<open>shift()\<close> while the history is longer than the bound.\<close>

function trimHistory :: "nat \<Rightarrow> 'a list \<Rightarrow> 'a list" where
  "trimHistory n h = (if length h > n then trimHistory n (tl h) else h)"
  by pat_completeness auto
termination
  by (relation "measure (\<lambda>(n, h). length h)") auto

declare trimHistory.simps [simp del]

definition addExchange :: "string \<Rightarrow> string \<Rightarrow> nat \<Rightarrow> nat \<Rightarrow> contextManager \<Rightarrow> contextManager" where
  "addExchange userMsg agentMsg t1 t2 s =
     (let h = conversationHistory s @
                [\<lparr>role = ''user'', content = userMsg, timestamp = t1\<rparr>,
                 \<lparr>role = ''agent'', content = agentMsg, timestamp = t2\<rparr>]
      in s\<lparr>conversationHistory := trimHistory (maxHistory s * 2) h\<rparr>)"

definition clear :: "contextManager \<Rightarrow> contextManager" where
  "clear s = s\<lparr>emailCache := [], activeEmailIds := [], conversationHistory := []\<rparr>"

text \<open>
  \<open>getContextForLLM\<close>. The number in \<open>Email ${i + 1}\<close> is printed in decimal; \<open>emailParts\<close> is
  the array \<open>parts\<close> after the first block, \<open>recentParts\<close> what the second block pushes.
\<close>

definition digitChar :: "nat \<Rightarrow> char" where
  "digitChar n = ''0123456789'' ! n"

function natToString :: "nat \<Rightarrow> string" where
  "natToString n = (if n < 10 then [digitChar n] else natToString (n div 10) @ [digitChar (n mod 10)])"
  by pat_completeness auto
termination
  by (relation "measure id") auto

declare natToString.simps [simp del]

definition emailLines :: "nat \<Rightarrow> 'a digest_scheme \<Rightarrow> string list" where
  "emailLines i d =
     [''Email '' @ natToString (i + 1) @ '': From: '' @ d_from d @ '' | Subject: '' @ d_subject d
        @ '' | Type: '' @ d_type d,
      ''Summary: '' @ substring0 200 (summary d)]
     @ (if length (actionItems d) > 0 then [''Action items: '' @ join ''; '' (actionItems d)] else [])
     @ (if length (dates d) > 0 then [''Key dates: '' @ join '', '' (dates d)] else [])
     @ (if length (amounts d) > 0 then [''Amounts: '' @ join '', '' (amounts d)] else [])"

definition emailParts :: "contextManager \<Rightarrow> string list" where
  "emailParts s =
     (let activeDigests = getActiveDigests s
      in if length activeDigests > 0
         then ''CURRENTLY DISCUSSED EMAILS:''
              # concat (map (\<lambda>(i, d). emailLines i d) (zip [0 ..< length activeDigests] activeDigests))
         else [])"

definition turnLine :: "turn \<Rightarrow> string" where
  "turnLine msg =
     (let truncated = (if length (content msg) > 150 then substring0 147 (content msg) @ ''...''
                       else content msg)
      in role msg @ '': '' @ truncated)"

definition recentParts :: "contextManager \<Rightarrow> string list" where
  "recentParts s =
     (let recent = sliceLast 6 (conversationHistory s)
      in if length recent > 0 then (CHR 0x0A # ''RECENT CONVERSATION:'') # map turnLine recent else [])"

definition getContextForLLM :: "contextManager \<Rightarrow> string" where
  "getContextForLLM s = join [CHR 0x0A] (emailParts s @ recentParts s)"

section \<open>Regular expressions\<close>

text \<open>
  The regular expressions of the program use literals, character classes, sequence,
  alternation, greedy quantifiers and the assertions \<open>^\<close>, \<open>$\<close> and \<open>\b\<close>; no capture is
  ever read. A matcher state is the character before the current position (\<open>None\<close> at the
  start of the input) and the rest of the input. \<open>ends r st\<close> lists the states in which a
  match of \<open>r\<close> started at \<open>st\<close> can end, in the order in which the backtracking matcher of
  ECMAScript tries them: the left alternative before the right one, one more iteration of
  a greedy quantifier before stopping, and an iteration that consumes nothing is rejected.
  The match found at a position is the head of this list.
\<close>

datatype re =
    Atom "char \<Rightarrow> bool"
  | Eps
  | Seq re re
  | Alt re re
  | Star re
  | Bos
  | Bol
  | Eol
  | WordB

type_synonym mstate = "char option \<times> string"

text \<open>Character classes, on code units below 256.\<close>

definition isLineTerminator :: "char \<Rightarrow> bool" where
  "isLineTerminator c = (c = CHR 0x0A \<or> c = CHR 0x0D)"

definition isSpace :: "char \<Rightarrow> bool" where
  "isSpace c = (c \<in> {CHR 0x09, CHR 0x0A, CHR 0x0B, CHR 0x0C, CHR 0x0D, CHR 0x20, CHR 0xA0})"

definition isDigit :: "char \<Rightarrow> bool" where
  "isDigit c = (c \<in> set ''0123456789'')"

definition isWordChar :: "char \<Rightarrow> bool" where
  "isWordChar c =
     (c \<in> set ''abcdefghijklmnopqrstuvwxyzABCDEFGHIJKLMNOPQRSTUVWXYZ0123456789_'')"

fun ends :: "re \<Rightarrow> mstate \<Rightarrow> mstate list" where
  "ends (Atom P) (p, []) = []"
| "ends (Atom P) (p, c # cs) = (if P c then [(Some c, cs)] else [])"
| "ends Eps st = [st]"
| "ends (Seq a b) st = concat (map (ends b) (ends a st))"
| "ends (Alt a b) st = ends a st @ ends b st"
| "ends (Star a) st =
     concat (map (\<lambda>st'. if length (snd st') < length (snd st) then ends (Star a) st' else [])
                 (ends a st)) @ [st]"
| "ends Bos (p, xs) = (case p of None \<Rightarrow> [(p, xs)] | Some c \<Rightarrow> [])"
| "ends Bol (p, xs) =
     (case p of None \<Rightarrow> [(p, xs)] | Some c \<Rightarrow> if isLineTerminator c then [(p, xs)] else [])"
| "ends Eol (p, xs) =
     (case xs of [] \<Rightarrow> [(p, xs)] | c # _ \<Rightarrow> if isLineTerminator c then [(p, xs)] else [])"
| "ends WordB (p, xs) =
     (let a = (case p of None \<Rightarrow> False | Some c \<Rightarrow> isWordChar c);
          b = (case xs of [] \<Rightarrow> False | c # _ \<Rightarrow> isWordChar c)
      in if a \<noteq> b then [(p, xs)] else [])"

declare ends.simps(6) [simp del]

text \<open>
  With the flag \<open>i\<close> two characters match when their canonical forms agree. Every letter
  of the program's patterns is ASCII, and a code unit from 128 on never canonicalises to
  an ASCII one, so only the ASCII letters are folded here.
\<close>

definition canonicalize :: "char \<Rightarrow> char" where
  "canonicalize c =
     (case map_of (zip ''abcdefghijklmnopqrstuvwxyz'' ''ABCDEFGHIJKLMNOPQRSTUVWXYZ'') c of
        Some u \<Rightarrow> u | None \<Rightarrow> c)"

definition ch :: "char \<Rightarrow> re" where
  "ch l = Atom (\<lambda>c. c = l)"

definition ci :: "char \<Rightarrow> re" where
  "ci l = Atom (\<lambda>c. canonicalize c = canonicalize l)"

definition seqs :: "re list \<Rightarrow> re" where
  "seqs rs = foldr Seq rs Eps"

fun alts :: "re list \<Rightarrow> re" where
  "alts [] = Atom (\<lambda>c. False)"
| "alts [r] = r"
| "alts (r # rs) = Alt r (alts rs)"

definition lit :: "string \<Rightarrow> re" where
  "lit s = seqs (map ch s)"

definition liti :: "string \<Rightarrow> re" where
  "liti s = seqs (map ci s)"

definition opt :: "re \<Rightarrow> re" where
  "opt r = Alt r Eps"

definition many1 :: "re \<Rightarrow> re" where
  "many1 r = Seq r (Star r)"

text \<open>\<open>r{m,n}\<close> is \<open>m\<close> copies of \<open>r\<close> and then up to \<open>n - m\<close> more, as many as possible first.\<close>

fun copies :: "nat \<Rightarrow> re \<Rightarrow> re" where
  "copies 0 r = Eps"
| "copies (Suc k) r = Seq r (copies k r)"

fun atMost :: "nat \<Rightarrow> re \<Rightarrow> re" where
  "atMost 0 r = Eps"
| "atMost (Suc k) r = opt (Seq r (atMost k r))"

definition between :: "nat \<Rightarrow> nat \<Rightarrow> re \<Rightarrow> re" where
  "between m n r = Seq (copies m r) (atMost (n - m) r)"

definition orMore :: "nat \<Rightarrow> re \<Rightarrow> re" where
  "orMore m r = Seq (copies m r) (Star r)"

abbreviation anyChar :: re where "anyChar \<equiv> Atom (\<lambda>c. \<not> isLineTerminator c)"
abbreviation space :: re where "space \<equiv> Atom isSpace"
abbreviation digit :: re where "digit \<equiv> Atom isDigit"
abbreviation wordChar :: re where "wordChar \<equiv> Atom isWordChar"

text \<open>\<open>r.test(s)\<close> for a pattern without the flag \<open>g\<close>: is there a match at some position.\<close>

fun search :: "re \<Rightarrow> mstate \<Rightarrow> bool" where
  "search r (p, []) = (ends r (p, []) \<noteq> [])"
| "search r (p, c # cs) = (ends r (p, c # cs) \<noteq> [] \<or> search r (Some c, cs))"

definition test :: "re \<Rightarrow> string \<Rightarrow> bool" where
  "test r s = search r (None, s)"

text \<open>
  The scan of a pattern with the flag \<open>g\<close> over the whole string, shared by \<open>replace\<close> and
  \<open>match\<close>: the characters that stay and the matches, from left to right. After a match
  the scan goes on where the match ended; after an empty match it steps over one
  character.
\<close>

datatype piece = Keep char | Hit string

function scan :: "re \<Rightarrow> mstate \<Rightarrow> piece list" where
  "scan r (p, xs) =
     (case ends r (p, xs) of
        [] \<Rightarrow> (case xs of [] \<Rightarrow> [] | c # cs \<Rightarrow> Keep c # scan r (Some c, cs))
      | (p', ys) # _ \<Rightarrow>
          if length ys < length xs
          then Hit (take (length xs - length ys) xs) # scan r (p', ys)
          else Hit [] # (case xs of [] \<Rightarrow> [] | c # cs \<Rightarrow> Keep c # scan r (Some c, cs)))"
  by pat_completeness auto
termination
  by (relation "measure (\<lambda>(r, p, xs). length xs)") auto

declare scan.simps [simp del]

text \<open>\<open>s.replace(r, rep)\<close> and \<open>s.match(r)\<close> (with \<open>null\<close> read as no match) for a global \<open>r\<close>.\<close>

definition replaceAll :: "re \<Rightarrow> string \<Rightarrow> string \<Rightarrow> string" where
  "replaceAll r new s =
     concat (map (\<lambda>x. case x of Keep c \<Rightarrow> [c] | Hit m \<Rightarrow> new) (scan r (None, s)))"

definition matchAll :: "re \<Rightarrow> string \<Rightarrow> string list" where
  "matchAll r s = concat (map (\<lambda>x. case x of Keep c \<Rightarrow> [] | Hit m \<Rightarrow> [m]) (scan r (None, s)))"

text \<open>
  \<open>s.split(r)\<close>: \<open>cur\<close> is the piece since the last separator. A separator match is tried
  at every position; an empty match right after the last separator is skipped.
\<close>

function splitLoop :: "re \<Rightarrow> mstate \<Rightarrow> string \<Rightarrow> string list" where
  "splitLoop r (p, xs) cur =
     (case xs of
        [] \<Rightarrow> [cur]
      | c # cs \<Rightarrow>
          (case ends r (p, xs) of
             [] \<Rightarrow> splitLoop r (Some c, cs) (cur @ [c])
           | (p', ys) # _ \<Rightarrow>
               if length ys < length xs then cur # splitLoop r (p', ys) []
               else if cur = [] then splitLoop r (Some c, cs) (cur @ [c])
               else cur # splitLoop r (p, xs) []))"
  by pat_completeness auto
termination
  by (relation "measures [\<lambda>(r, st, cur). length (snd st), \<lambda>(r, st, cur). length cur]") auto

declare splitLoop.simps [simp del]

definition splitRe :: "re \<Rightarrow> string \<Rightarrow> string list" where
  "splitRe r s =
     (if s = [] then (if ends r (None, []) \<noteq> [] then [] else [[]])
      else splitLoop r (None, s) [])"

text \<open>\<open>s.trim()\<close> and \<open>s.toLowerCase()\<close>.\<close>

definition trim :: "string \<Rightarrow> string" where
  "trim s = rev (dropWhile isSpace (rev (dropWhile isSpace s)))"

definition lowerChar :: "char \<Rightarrow> char" where
  "lowerChar c =
     (case map_of (zip ''ABCDEFGHIJKLMNOPQRSTUVWXYZ'' ''abcdefghijklmnopqrstuvwxyz'') c of
        Some l \<Rightarrow> l
      | None \<Rightarrow>
          (let n = (of_char c :: nat)
           in if 192 \<le> n \<and> n \<le> 222 \<and> n \<noteq> 215 then char_of (n + 32) else c))"

definition toLowerCase :: "string \<Rightarrow> string" where
  "toLowerCase s = map lowerChar s"

section \<open>The email processor (email-processor.js)\<close>

text \<open>
  A value that may be absent (\<open>undefined\<close>, \<open>null\<close>) is an option. \<open>x || d\<close> on a string
  that may be absent: the empty string is falsy as well.
\<close>

definition orElse :: "string option \<Rightarrow> string \<Rightarrow> string" where
  "orElse x d = (case x of None \<Rightarrow> d | Some s \<Rightarrow> if s = [] then d else s)"

subsection \<open>cleanEmailBody\<close>

text \<open>The class \<open>[^\s)>\]]\<close> of the URL pattern.\<close>

definition urlChar :: "char \<Rightarrow> bool" where
  "urlChar c = (\<not> (isSpace c \<or> c \<in> set '')>]''))"

definition urlPattern :: re where
  "urlPattern = seqs [liti ''http'', opt (ci CHR ''s''), lit ''://'', many1 (Atom urlChar)]"

definition footerPatterns :: "re list" where
  "footerPatterns =
     [seqs [liti ''unsubscribe'', Star anyChar, Eol],
      seqs [liti ''you received this email because'', Star anyChar, Eol],
      seqs [liti ''to stop receiving'', Star anyChar, Eol],
      seqs [liti ''view this email in your browser'', Star anyChar, Eol],
      seqs [liti ''click here to unsubscribe'', Star anyChar, Eol],
      seqs [liti ''manage your preferences'', Star anyChar, Eol],
      seqs [liti ''privacy policy'', Star anyChar, liti ''terms of service'', Star anyChar, Eol],
      seqs [ci (CHR 0xA9), Star space, copies 4 digit, Star anyChar, Eol],
      seqs [copies 4 digit, many1 space,
            alts (map liti [''amphitheatre'', ''street'', ''avenue'', ''road'', ''blvd'']),
            Star anyChar, Eol]]"

definition quotedPattern :: re where
  "quotedPattern = seqs [Bol, ch CHR ''>'', Star anyChar, Eol]"

definition wrotePattern :: re where
  "wrotePattern =
     seqs [liti ''on'', many1 space, many1 wordChar, ch CHR '','', many1 space, many1 wordChar,
           many1 space, many1 digit, Star anyChar, liti ''wrote:'', Star anyChar, Eol]"

definition newlines3 :: re where
  "newlines3 = orMore 3 (ch CHR 0x0A)"

definition blanks2 :: re where
  "blanks2 = orMore 2 (Atom (\<lambda>c. c = CHR '' '' \<or> c = CHR 0x09))"

definition cleanEmailBody :: "string option \<Rightarrow> string" where
  "cleanEmailBody rawBody =
     (case rawBody of
        None \<Rightarrow> []
      | Some raw \<Rightarrow>
          if raw = [] then []
          else
            let cleaned = replaceAll urlPattern ''[link]'' raw;
                cleaned = foldl (\<lambda>c pattern. replaceAll pattern [] c) cleaned footerPatterns;
                cleaned = replaceAll quotedPattern [] cleaned;
                cleaned = replaceAll wrotePattern [] cleaned;
                cleaned = replaceAll newlines3 [CHR 0x0A, CHR 0x0A] cleaned;
                cleaned = replaceAll blanks2 '' '' cleaned;
                cleaned = trim cleaned
            in cleaned)"

subsection \<open>extractKeyInfo\<close>

record keyInfo =
  info_dates :: "string list"
  info_amounts :: "string list"
  info_actionItems :: "string list"
  info_names :: "string list"
  info_keyPhrases :: "string list"

definition months :: re where
  "months = alts (map liti [''jan'', ''feb'', ''mar'', ''apr'', ''may'', ''jun'',
                            ''jul'', ''aug'', ''sep'', ''oct'', ''nov'', ''dec''])"

definition datePatterns :: "re list" where
  "datePatterns =
     [seqs [WordB, between 1 2 digit, many1 space, months, Star wordChar, Star space,
            opt (ch CHR '',''), Star space, between 2 4 digit, WordB],
      seqs [WordB, months, Star wordChar, many1 space, between 1 2 digit, Star space,
            opt (ch CHR '',''), Star space, between 2 4 digit, WordB],
      seqs [WordB, between 1 2 digit, ch CHR ''/'', between 1 2 digit, ch CHR ''/'',
            between 2 4 digit, WordB],
      seqs [WordB,
            alts (map liti [''monday'', ''tuesday'', ''wednesday'', ''thursday'', ''friday'',
                            ''saturday'', ''sunday'']),
            WordB],
      seqs [WordB, alts (map liti [''today'', ''tomorrow'', ''next week'', ''this week'']), WordB]]"

text \<open>The loop over \<open>datePatterns\<close>: the matches of each pattern, trimmed, pushed in turn.\<close>

definition dateMatches :: "string \<Rightarrow> string list" where
  "dateMatches cleanedBody =
     foldl (\<lambda>acc pattern. acc @ map trim (matchAll pattern cleanedBody)) [] datePatterns"

definition extractDates :: "string \<Rightarrow> string list" where
  "extractDates cleanedBody = take 5 (newSet (dateMatches cleanedBody))"

text \<open>
  Of the currency signs of the amount pattern only \<open>$\<close> and the pound sign (code unit
  \<open>0xA3\<close>) are code units below 256.
\<close>

definition amountPattern :: re where
  "amountPattern =
     Alt (seqs [Atom (\<lambda>c. c = CHR ''$'' \<or> c = CHR 0xA3), opt space,
                many1 (Atom (\<lambda>c. isDigit c \<or> c = CHR '','')),
                opt (seqs [ch CHR ''.'', copies 2 digit])])
         (seqs [many1 digit, Star (seqs [ch CHR '','', copies 3 digit]),
                opt (seqs [ch CHR ''.'', copies 2 digit]), opt space,
                alts (map liti [''USD'', ''INR'', ''EUR'', ''GBP''])])"

definition extractAmounts :: "string \<Rightarrow> string list" where
  "extractAmounts cleanedBody = take 5 (newSet (matchAll amountPattern cleanedBody))"

definition sentenceBreak :: re where
  "sentenceBreak = many1 (Atom (\<lambda>c. c \<in> set ''.!?'' \<or> c = CHR 0x0A))"

definition getSentences :: "string \<Rightarrow> string list" where
  "getSentences cleanedBody =
     filter (\<lambda>s. length s > 10) (map trim (splitRe sentenceBreak cleanedBody))"

definition actionKeywords :: re where
  "actionKeywords =
     seqs [WordB,
           alts (map liti [''please'', ''kindly'', ''required'', ''must'', ''need to'', ''action'',
                           ''deadline'', ''respond'', ''reply'', ''confirm'', ''submit'',
                           ''complete'', ''attend'', ''join'', ''register'', ''rsvp'']),
           WordB]"

definition linkStart :: re where
  "linkStart = Seq Bos (lit ''[link]'')"

definition extractKeyInfo :: "string \<Rightarrow> keyInfo" where
  "extractKeyInfo cleanedBody =
     (if cleanedBody = []
      then \<lparr>info_dates = [], info_amounts = [], info_actionItems = [], info_names = [],
            info_keyPhrases = []\<rparr>
      else
        let sentences = getSentences cleanedBody
        in \<lparr>info_dates = extractDates cleanedBody,
            info_amounts = extractAmounts cleanedBody,
            info_actionItems = take 5 (filter (test actionKeywords) sentences),
            info_names = [],
            info_keyPhrases =
              take 3 (filter (\<lambda>s. \<not> test linkStart s)
                        (filter (\<lambda>s. length s > 20 \<and> length s < 200) sentences))\<rparr>)"

subsection \<open>classifyEmail\<close>

record headers =
  h_from :: "string option"
  h_to :: "string option"
  h_subject :: "string option"
  h_date :: "string option"

definition words :: "string list \<Rightarrow> re" where
  "words ws = alts (map liti ws)"

text \<open>The seven patterns that \<open>classifyEmail\<close> tests, in the order of the source.\<close>

definition promoWords :: re where
  "promoWords = words [''noreply'', ''no-reply'', ''newsletter'', ''marketing'', ''promo'', ''offer'',
                       ''sale'', ''discount'', ''deal'', ''unsubscribe'']"

definition priceWords :: re where
  "priceWords = words [''off'', ''%'', ''discount'', ''sale'', ''deal'', ''coupon'', ''offer'',
                       ''price'', ''save'']"

definition securityWords :: re where
  "securityWords = words [''alert'', ''security'', ''verification'', ''verify'', ''password'',
                          ''signin'', ''login'', ''suspicious'', ''unusual'']"

definition billingWords :: re where
  "billingWords = words [''invoice'', ''payment'', ''receipt'', ''order'', ''transaction'',
                         ''billing'', ''subscription'']"

definition eventWords :: re where
  "eventWords = words [''meeting'', ''invite'', ''calendar'', ''event'', ''rsvp'', ''attend'',
                       ''join'', ''webinar'', ''summit'', ''conference'']"

definition noticeWords :: re where
  "noticeWords = words [''notification'', ''update'', ''reminder'', ''notice'']"

definition devWords :: re where
  "devWords = words [''github'', ''gitlab'', ''jenkins'', ''deploy'', ''build'', ''commit'',
                     ''pull request'', ''merge'']"

text \<open>The chain of \<open>if\<close>s of \<open>classifyEmail\<close> on the combined text.\<close>

definition classifyCombined :: "string \<Rightarrow> string" where
  "classifyCombined combined =
     (if test promoWords combined
      then (if test priceWords combined then ''promotional'' else ''newsletter'')
      else if test securityWords combined then ''security''
      else if test billingWords combined then ''transactional''
      else if test eventWords combined then ''event''
      else if test noticeWords combined then ''notification''
      else if test devWords combined then ''development''
      else ''personal'')"

definition classifyEmail :: "headers \<Rightarrow> string option \<Rightarrow> string" where
  "classifyEmail hs cleanedBody =
     (let from = toLowerCase (orElse (h_from hs) []);
          subject = toLowerCase (orElse (h_subject hs) []);
          body = toLowerCase (orElse cleanedBody []);
          combined = from @ '' '' @ subject @ '' '' @ body
      in classifyCombined combined)"

subsection \<open>buildDigest\<close>

record emailContent =
  headers :: headers
  body :: "string option"
  snippet :: "string option"

definition buildDigest :: "emailContent \<Rightarrow> digest" where
  "buildDigest emailContent =
     (let hs = headers emailContent;
          cleanedBody = cleanEmailBody (Some (orElse (body emailContent) (orElse (snippet emailContent) [])));
          keyInfo = extractKeyInfo cleanedBody;
          type = classifyEmail hs (Some cleanedBody);
          summary = (if length (info_keyPhrases keyInfo) > 0 then join ''. '' (info_keyPhrases keyInfo)
                     else if cleanedBody \<noteq> [] then substring0 300 cleanedBody
                     else orElse (snippet emailContent) ''No readable content'');
          summary = (if length summary > 400 then substring0 397 summary @ ''...'' else summary)
      in \<lparr>d_from = orElse (h_from hs) ''Unknown'',
          d_to = orElse (h_to hs) [],
          d_subject = orElse (h_subject hs) ''No Subject'',
          d_date = orElse (h_date hs) [],
          d_type = type,
          summary = summary,
          keyPoints = info_keyPhrases keyInfo,
          actionItems = info_actionItems keyInfo,
          dates = info_dates keyInfo,
          amounts = info_amounts keyInfo,
          actionRequired = (length (info_actionItems keyInfo) > 0),
          fullBodyLength = length (orElse (body emailContent) [])\<rparr>)"

section \<open>Notions used in the statements\<close>

text \<open>
  The stores the program can build: the constructor's, and what the methods make of them.
  \<open>cacheInv\<close> is what \<open>cacheEmail\<close> relies on: the entries of a \<open>Map\<close> have distinct keys,
  and the cache is within its positive bound. \<open>cacheAll\<close> and \<open>recordAll\<close> run \<open>cacheEmail\<close>
  and \<open>addExchange\<close> over a list of calls; the sample values instantiate the theorems.
\<close>

definition cacheInv :: "contextManager \<Rightarrow> bool" where
  "cacheInv s = (distinct (mapKeys (emailCache s)) \<and> length (emailCache s) \<le> maxCache s \<and> 0 < maxCache s)"

inductive reachable :: "contextManager \<Rightarrow> bool" where
  r_new: "reachable newContextManager"
| r_cache: "reachable s \<Longrightarrow> reachable (cacheEmail messageId d now s)"
| r_set: "reachable s \<Longrightarrow> reachable (setActiveEmails i s)"
| r_add: "reachable s \<Longrightarrow> reachable (addActiveEmails i s)"
| r_exchange: "reachable s \<Longrightarrow> reachable (addExchange userMsg agentMsg t1 t2 s)"
| r_clear: "reachable s \<Longrightarrow> reachable (clear s)"

definition cacheAll :: "(string \<times> digest \<times> nat) list \<Rightarrow> contextManager \<Rightarrow> contextManager" where
  "cacheAll es s = foldl (\<lambda>s (k, d, t). cacheEmail k d t s) s es"

definition entry :: "string \<times> digest \<times> nat \<Rightarrow> string \<times> cached" where
  "entry e = (case e of (k, d, t) \<Rightarrow> (k, stamp d t))"

definition exchangeTurns :: "string \<times> string \<times> nat \<times> nat \<Rightarrow> turn list" where
  "exchangeTurns x = (case x of (u, a, t1, t2) \<Rightarrow>
     [\<lparr>role = ''user'', content = u, timestamp = t1\<rparr>, \<lparr>role = ''agent'', content = a, timestamp = t2\<rparr>])"

definition recordAll :: "(string \<times> string \<times> nat \<times> nat) list \<Rightarrow> contextManager \<Rightarrow> contextManager" where
  "recordAll xs s = foldl (\<lambda>s (u, a, t1, t2). addExchange u a t1 t2 s) s xs"

text \<open>
  The summary policy in the words of the specification: the key phrases joined with
  \<open>". "\<close> if there are any, else the first 300 characters of the cleaned body if it is not
  empty, else the snippet if there is one, else a fixed text; and the cap at 400 characters.
\<close>

definition summaryPolicy :: "string list \<Rightarrow> string \<Rightarrow> string option \<Rightarrow> string" where
  "summaryPolicy phrases cleaned snip =
     (if phrases \<noteq> [] then join ''. '' phrases
      else if cleaned \<noteq> [] then take 300 cleaned
      else (case snip of
              Some t \<Rightarrow> if t \<noteq> [] then t else ''No readable content''
            | None \<Rightarrow> ''No readable content''))"

definition cap400 :: "string \<Rightarrow> string" where
  "cap400 t = (if length t > 400 then take 397 t @ ''...'' else t)"

text \<open>The text that \<open>buildDigest\<close> cleans: the body, or the snippet when there is no body.\<close>

definition cleanedBodyOf :: "emailContent \<Rightarrow> string" where
  "cleanedBodyOf e = cleanEmailBody (Some (orElse (body e) (orElse (snippet e) [])))"

text \<open>
  The summary in the words of the specification, the cleaned body being the cleaned \<open>body\<close>
  field of the message and the key phrases those extracted from it.
\<close>

definition specSummary :: "emailContent \<Rightarrow> string" where
  "specSummary e =
     cap400 (summaryPolicy (info_keyPhrases (extractKeyInfo (cleanEmailBody (body e))))
                           (cleanEmailBody (body e)) (snippet e))"

text \<open>
  Family by family: the distinct entries of the first list in their order, then those of
  the later lists that no earlier list has.
\<close>

fun familyMajor :: "'a list list \<Rightarrow> 'a list" where
  "familyMajor [] = []"
| "familyMajor (f # fs) = newSet f @ filter (\<lambda>x. x \<notin> set f) (familyMajor fs)"

text \<open>\<open>s.indexOf(t)\<close>, with \<open>None\<close> for \<open>-1\<close>: where \<open>t\<close> first occurs in \<open>s\<close>.\<close>

fun indexOf :: "string \<Rightarrow> string \<Rightarrow> nat option" where
  "indexOf t [] = (if t = [] then Some 0 else None)"
| "indexOf t (c # cs) =
     (if prefix t (c # cs) then Some 0 else map_option Suc (indexOf t cs))"

definition categories :: "string list" where
  "categories = [''promotional'', ''newsletter'', ''security'', ''transactional'', ''event'',
                 ''notification'', ''development'', ''personal'']"

text \<open>
  Notions of the proofs about the regular expressions. \<open>replaceFrom\<close> is \<open>replaceAll\<close>
  from a matcher state on; a pattern is \<open>eolEnding\<close> when each of its matches ends at the
  end of a line; \<open>lineStartGt p s\<close> says that some line of \<open>s\<close> starts with the quote sign,
  where \<open>p\<close> is the character before \<open>s\<close>; \<open>urlAt s\<close> says that \<open>s\<close> starts with a match of the
  URL pattern; \<open>occursIn w s\<close> that \<open>w\<close> occurs in \<open>s\<close>, the case of ASCII letters ignored.
\<close>

definition replaceFrom :: "re \<Rightarrow> string \<Rightarrow> mstate \<Rightarrow> string" where
  "replaceFrom r new st =
     concat (map (\<lambda>x. case x of Keep c \<Rightarrow> [c] | Hit m \<Rightarrow> new) (scan r st))"

definition eolEnding :: "re \<Rightarrow> bool" where
  "eolEnding r = (\<forall>st e. e \<in> set (ends r st) \<longrightarrow> snd e = [] \<or> isLineTerminator (hd (snd e)))"

definition atBol :: "char option \<Rightarrow> bool" where
  "atBol p = (case p of None \<Rightarrow> True | Some c \<Rightarrow> isLineTerminator c)"

fun lineStartGt :: "char option \<Rightarrow> string \<Rightarrow> bool" where
  "lineStartGt p [] = False"
| "lineStartGt p (c # cs) = ((c = CHR ''>'' \<and> atBol p) \<or> lineStartGt (Some c) cs)"

abbreviation (input) nl :: char where "nl \<equiv> CHR 0x0A"

fun urlTail :: "string \<Rightarrow> bool" where
  "urlTail (a # b # c # g # _) = (a = CHR '':'' \<and> b = CHR ''/'' \<and> c = CHR ''/'' \<and> urlChar g)"
| "urlTail _ = False"

fun urlAt :: "string \<Rightarrow> bool" where
  "urlAt (h # t # t' # p # rest) =
     (canonicalize h = CHR ''H'' \<and> canonicalize t = CHR ''T'' \<and> canonicalize t' = CHR ''T''
      \<and> canonicalize p = CHR ''P''
      \<and> ((case rest of [] \<Rightarrow> False | s # rest' \<Rightarrow> canonicalize s = CHR ''S'' \<and> urlTail rest')
         \<or> urlTail rest))"
| "urlAt _ = False"

definition urlColon :: re where
  "urlColon = Seq (lit ''://'') (Seq (many1 (Atom urlChar)) Eps)"

definition occursIn :: "string \<Rightarrow> string \<Rightarrow> bool" where
  "occursIn w s =
     (\<exists>i \<le> length s. map canonicalize (take (length w) (drop i s)) = map canonicalize w)"

text \<open>Sample values.\<close>

definition sampleDigest :: digest where
  "sampleDigest =
     \<lparr>d_from = ''a@b.c'', d_to = ''me'', d_subject = ''Hello'', d_date = ''today'',
      d_type = ''personal'', summary = ''Hello there'', keyPoints = [], actionItems = [],
      dates = [], amounts = [], actionRequired = False, fullBodyLength = 11\<rparr>"

definition sampleEntries :: "nat \<Rightarrow> (string \<times> digest \<times> nat) list" where
  "sampleEntries n = map (\<lambda>i. (natToString i, sampleDigest, i)) [0 ..< n]"

definition sampleExchanges :: "nat \<Rightarrow> (string \<times> string \<times> nat \<times> nat) list" where
  "sampleExchanges n = map (\<lambda>i. (''q'' @ natToString i, ''a'' @ natToString i, 2 * i, 2 * i + 1)) [0 ..< n]"

section \<open>The context manager: proofs\<close>

lemma mapKeys_mapSet:
  "mapKeys (mapSet k v m) = (if k \<in> set (mapKeys m) then mapKeys m else mapKeys m @ [k])"
  by (induction m) (force simp: mapKeys_def)+

lemma mapSet_new: "k \<notin> set (mapKeys m) \<Longrightarrow> mapSet k v m = m @ [(k, v)]"
  by (induction m) (auto simp: mapKeys_def)

lemma length_mapSet:
  "length (mapSet k v m) = (if k \<in> set (mapKeys m) then length m else Suc (length m))"
  by (induction m) (force simp: mapKeys_def)+

lemma mapGet_mapSet: "mapGet (mapSet k v m) k' = (if k' = k then Some v else mapGet m k')"
  by (induction m) (auto simp: mapGet_def)

lemma mapDelete_first:
  "distinct (mapKeys ((k, v) # m)) \<Longrightarrow> mapDelete k ((k, v) # m) = m"
  by (auto simp: mapDelete_def mapKeys_def filter_id_conv)

lemma evict_tl:
  "distinct (mapKeys m) \<Longrightarrow>
   (case m of [] \<Rightarrow> [] | (firstKey, _) # _ \<Rightarrow> mapDelete firstKey m) = tl m"
  by (cases m) (auto simp: mapDelete_first)

lemma cacheEmail_cache:
  "cacheInv s \<Longrightarrow>
   emailCache (cacheEmail k d t s) =
     mapSet k (stamp d t) (if length (emailCache s) = maxCache s then tl (emailCache s) else emailCache s)"
  by (auto simp: cacheEmail_def cacheInv_def evict_tl Let_def)

lemma cacheInv_cacheEmail: "cacheInv s \<Longrightarrow> cacheInv (cacheEmail k d t s)"
proof -
  assume inv: "cacheInv s"
  let ?c = "if length (emailCache s) = maxCache s then tl (emailCache s) else emailCache s"
  have d: "distinct (mapKeys ?c)"
    using inv by (auto simp: cacheInv_def mapKeys_def map_tl distinct_tl)
  have l: "length ?c < maxCache s"
    using inv by (auto simp: cacheInv_def)
  have m: "maxCache (cacheEmail k d t s) = maxCache s"
    by (simp add: cacheEmail_def Let_def)
  show ?thesis
    unfolding cacheInv_def cacheEmail_cache [OF inv] m
    using d l inv by (auto simp: mapKeys_mapSet length_mapSet cacheInv_def)
qed

lemma cacheInv_new: "cacheInv newContextManager"
  by (simp add: cacheInv_def newContextManager_def mapKeys_def)

lemma reachable_cacheInv: "reachable s \<Longrightarrow> cacheInv s"
proof (induction rule: reachable.induct)
  case r_new
  show ?case by (rule cacheInv_new)
next
  case (r_cache s messageId d now)
  then show ?case by (simp add: cacheInv_cacheEmail)
qed (simp_all add: cacheInv_def setActiveEmails_def addActiveEmails_def addExchange_def clear_def Let_def mapKeys_def)

lemma reachable_max: "reachable s \<Longrightarrow> maxCache s = 50 \<and> maxHistory s = 10"
  by (induction rule: reachable.induct)
     (simp_all add: newContextManager_def cacheEmail_def setActiveEmails_def addActiveEmails_def addExchange_def clear_def Let_def)

lemma cacheEmail_full_new:
  assumes "cacheInv s" "k \<notin> set (mapKeys (emailCache s))" "length (emailCache s) = maxCache s"
  shows "emailCache (cacheEmail k d t s) = tl (emailCache s) @ [(k, stamp d t)]"
proof -
  have "k \<notin> set (mapKeys (tl (emailCache s)))"
    using assms(2) by (cases "emailCache s") (auto simp: mapKeys_def)
  then show ?thesis
    using assms by (simp add: cacheEmail_cache mapSet_new)
qed

lemma cacheEmail_room_new:
  assumes "cacheInv s" "k \<notin> set (mapKeys (emailCache s))" "length (emailCache s) < maxCache s"
  shows "emailCache (cacheEmail k d t s) = emailCache s @ [(k, stamp d t)]"
  using assms by (simp add: cacheEmail_cache mapSet_new)

lemma cacheAll_snoc: "cacheAll (es @ [(k, d, t)]) s = cacheEmail k d t (cacheAll es s)"
  by (simp add: cacheAll_def)

lemma cacheInv_cacheAll: "cacheInv s \<Longrightarrow> cacheInv (cacheAll es s)"
  by (induction es rule: rev_induct) (auto simp: cacheAll_def cacheInv_cacheEmail)

lemma maxCache_cacheAll: "maxCache (cacheAll es s) = maxCache s"
  by (induction es rule: rev_induct) (auto simp: cacheAll_def cacheEmail_def Let_def)

lemma cacheAll_fill:
  "distinct (map fst es) \<Longrightarrow> length es \<le> 50 \<Longrightarrow>
   emailCache (cacheAll es newContextManager) = map entry es"
proof (induction es rule: rev_induct)
  case Nil
  show ?case by (simp add: cacheAll_def newContextManager_def)
next
  case (snoc e es)
  obtain k d t where e: "e = (k, d, t)" by (cases e)
  let ?s = "cacheAll es newContextManager"
  have IH: "emailCache ?s = map entry es" using snoc by simp
  have inv: "cacheInv ?s" by (simp add: cacheInv_cacheAll cacheInv_new)
  have mc: "maxCache ?s = 50" by (simp add: maxCache_cacheAll newContextManager_def)
  have keys: "mapKeys (emailCache ?s) = map fst es"
    by (simp add: IH mapKeys_def entry_def case_prod_unfold comp_def)
  have new: "k \<notin> set (mapKeys (emailCache ?s))"
    using snoc.prems(1) e keys by auto
  have room: "length (emailCache ?s) < maxCache ?s"
    using snoc.prems(2) IH mc by simp
  show ?case
    using cacheEmail_room_new [OF inv new room] IH
    by (simp add: e cacheAll_snoc entry_def)
qed

lemma cacheAll_51:
  assumes "distinct (map fst es)" "length es = 51"
  shows "emailCache (cacheAll es newContextManager) = map entry (tl es)"
proof -
  obtain es' e where es: "es = es' @ [e]"
    using assms(2) by (cases es rule: rev_cases) auto
  obtain k d t where e: "e = (k, d, t)" by (cases e)
  let ?s = "cacheAll es' newContextManager"
  have len: "length es' = 50" using assms(2) es by simp
  have fill: "emailCache ?s = map entry es'"
    using assms(1) es len by (intro cacheAll_fill) auto
  have inv: "cacheInv ?s" by (simp add: cacheInv_cacheAll cacheInv_new)
  have mc: "maxCache ?s = 50" by (simp add: maxCache_cacheAll newContextManager_def)
  have keys: "mapKeys (emailCache ?s) = map fst es'"
    by (simp add: fill mapKeys_def entry_def case_prod_unfold comp_def)
  have new: "k \<notin> set (mapKeys (emailCache ?s))"
    using assms(1) es e keys by auto
  have full: "length (emailCache ?s) = maxCache ?s"
    using fill len mc by simp
  have ne: "es' \<noteq> []" using len by auto
  show ?thesis
    using cacheEmail_full_new [OF inv new full] fill ne
    by (simp add: es e cacheAll_snoc entry_def map_tl)
qed

lemma trimHistory_drop: "trimHistory n h = drop (length h - n) h"
proof (induction n h rule: trimHistory.induct)
  case (1 n h)
  show ?case
  proof (cases "length h > n")
    case True
    then have "trimHistory n h = trimHistory n (tl h)" by (subst trimHistory.simps) simp
    also have "\<dots> = drop (length (tl h) - n) (tl h)" using 1 True by simp
    also have "\<dots> = drop (length h - n) h"
      using True by (cases h) (auto simp: Suc_diff_le)
    finally show ?thesis .
  next
    case False
    then show ?thesis by (subst trimHistory.simps) simp
  qed
qed

lemma addExchange_history:
  "conversationHistory (addExchange u a t1 t2 s) =
     sliceLast (maxHistory s * 2) (conversationHistory s @ exchangeTurns (u, a, t1, t2))"
  by (simp add: addExchange_def Let_def trimHistory_drop sliceLast_def exchangeTurns_def)

lemma sliceLast_append: "sliceLast n (sliceLast n h @ ys) = sliceLast n (h @ ys)"
  by (cases "length h \<le> n") (auto simp: sliceLast_def add.commute)

lemma maxHistory_recordAll: "maxHistory (recordAll xs s) = maxHistory s"
  by (induction xs rule: rev_induct) (auto simp: recordAll_def addExchange_def Let_def)

lemma recordAll_history:
  "conversationHistory (recordAll xs s) =
     sliceLast (maxHistory s * 2) (conversationHistory s @ concat (map exchangeTurns xs))"
    if "length (conversationHistory s) \<le> maxHistory s * 2"
  using that
proof (induction xs rule: rev_induct)
  case Nil
  then show ?case by (simp add: recordAll_def sliceLast_def)
next
  case (snoc x xs)
  obtain u a t1 t2 where x: "x = (u, a, t1, t2)" by (cases x)
  have "recordAll (xs @ [x]) s = addExchange u a t1 t2 (recordAll xs s)"
    by (simp add: recordAll_def x)
  then show ?case
    using snoc by (simp add: addExchange_history maxHistory_recordAll sliceLast_append x)
qed

lemma length_exchangeTurns: "length (concat (map exchangeTurns xs)) = 2 * length xs"
  by (induction xs) (auto simp: exchangeTurns_def)

lemma recordAll_11:
  assumes "length xs = 11"
  shows "conversationHistory (recordAll xs newContextManager) = concat (map exchangeTurns (tl xs))"
proof -
  obtain x xs' where xs: "xs = x # xs'" using assms by (cases xs) auto
  have l: "length (exchangeTurns x) = 2" by (cases x) (simp add: exchangeTurns_def)
  have "conversationHistory (recordAll xs newContextManager)
        = sliceLast 20 (concat (map exchangeTurns xs))"
    by (subst recordAll_history) (simp_all add: newContextManager_def)
  also have "\<dots> = drop 2 (concat (map exchangeTurns xs))"
    using assms by (simp add: sliceLast_def length_exchangeTurns)
  also have "\<dots> = concat (map exchangeTurns xs')" using l by (simp add: xs)
  finally show ?thesis by (simp add: xs)
qed

lemma reachable_cacheAll: "reachable s \<Longrightarrow> reachable (cacheAll es s)"
  by (induction es rule: rev_induct) (auto simp: cacheAll_def intro: reachable.intros)

lemma length_cacheEmail: "cacheInv s \<Longrightarrow> length (emailCache (cacheEmail k d t s)) \<le> maxCache s"
  using cacheInv_cacheEmail [of s k d t] by (simp add: cacheInv_def cacheEmail_def Let_def)

text \<open>
  Claim C1. In every store the program can build, \<open>maxCache\<close> is 50 and after a call of
  \<open>cacheEmail\<close> the cache holds at most \<open>maxCache\<close> entries. When the id is new and the cache
  is full, the call removes the oldest-inserted entry alone and appends the new entry: the
  other entries stay, in their order. Caching 51 entries with distinct ids into a fresh
  store leaves the 50 entries after the first, which is gone.
\<close>

theorem cacheEmail_bounded_fifo:
  assumes "reachable s"
  shows "maxCache s = 50
     \<and> length (emailCache (cacheEmail k d t s)) \<le> maxCache s
     \<and> (k \<notin> set (mapKeys (emailCache s)) \<and> length (emailCache s) = maxCache s \<longrightarrow>
          emailCache (cacheEmail k d t s) = tl (emailCache s) @ [(k, stamp d t)])
     \<and> (distinct (map fst es) \<and> length es = 51 \<longrightarrow>
          emailCache (cacheAll es newContextManager) = map entry (tl es))"
proof -
  have inv: "cacheInv s" using assms by (rule reachable_cacheInv)
  show ?thesis
    using reachable_max [OF assms] length_cacheEmail [OF inv] cacheEmail_full_new [OF inv]
      cacheAll_51 [of es]
    by blast
qed

theorem cacheEmail_bounded_fifo_witness:
  "reachable (cacheAll (sampleEntries 50) newContextManager)
   \<and> ''new'' \<notin> set (mapKeys (emailCache (cacheAll (sampleEntries 50) newContextManager)))
   \<and> length (emailCache (cacheAll (sampleEntries 50) newContextManager)) = 50
   \<and> emailCache (cacheEmail ''new'' sampleDigest 7 (cacheAll (sampleEntries 50) newContextManager))
       = tl (emailCache (cacheAll (sampleEntries 50) newContextManager)) @ [(''new'', stamp sampleDigest 7)]
   \<and> distinct (map fst (sampleEntries 51)) \<and> length (sampleEntries 51) = 51
   \<and> emailCache (cacheAll (sampleEntries 51) newContextManager) = map entry (tl (sampleEntries 51))"
proof -
  let ?S = "cacheAll (sampleEntries 50) newContextManager"
  have r: "reachable ?S" by (simp add: reachable_cacheAll r_new)
  have d50: "distinct (map fst (sampleEntries 50))" by code_simp
  have l50: "length (sampleEntries 50) = 50" by (simp add: sampleEntries_def)
  have fill: "emailCache ?S = map entry (sampleEntries 50)"
    using d50 l50 by (intro cacheAll_fill) simp_all
  have keys: "mapKeys (emailCache ?S) = map fst (sampleEntries 50)"
    by (simp add: fill mapKeys_def entry_def case_prod_unfold comp_def)
  have h1: "''new'' \<notin> set (mapKeys (emailCache ?S))" unfolding keys by code_simp
  have h2: "length (emailCache ?S) = 50" by (simp add: fill l50)
  have h3: "distinct (map fst (sampleEntries 51))" by code_simp
  have h4: "length (sampleEntries 51) = 51" by (simp add: sampleEntries_def)
  from cacheEmail_bounded_fifo [OF r, of "''new''" sampleDigest 7 "sampleEntries 51"] r h1 h2 h3 h4
  show ?thesis by simp
qed

text \<open>
  Claim C10. When \<open>cacheEmail\<close> is called with an id that is cached already and the cache
  is full, the oldest entry is evicted all the same. If the id is not the oldest one, the
  oldest entry is lost, the id stays where it stood in the insertion order and gets the new
  digest; if the id is the oldest one itself, it is evicted and inserted again at the back.
  Every other entry keeps its value.
\<close>

theorem recache_at_capacity:
  assumes "distinct (mapKeys (emailCache s))"
    and "k \<in> set (mapKeys (emailCache s))"
    and "length (emailCache s) = maxCache s"
  shows "mapKeys (emailCache (cacheEmail k d t s)) =
           (if k = hd (mapKeys (emailCache s)) then tl (mapKeys (emailCache s)) @ [k]
            else tl (mapKeys (emailCache s)))
     \<and> mapGet (emailCache (cacheEmail k d t s)) k = Some (stamp d t)
     \<and> (\<forall>k'. k' \<noteq> k \<and> k' \<noteq> hd (mapKeys (emailCache s)) \<longrightarrow>
            mapGet (emailCache (cacheEmail k d t s)) k' = mapGet (emailCache s) k')
     \<and> (k \<noteq> hd (mapKeys (emailCache s)) \<longrightarrow>
            hd (mapKeys (emailCache s)) \<notin> set (mapKeys (emailCache (cacheEmail k d t s))))"
proof -
  obtain k0 v0 m where c: "emailCache s = (k0, v0) # m"
    using assms(2) by (cases "emailCache s") (auto simp: mapKeys_def)
  have k0: "k0 \<notin> set (mapKeys m)" and dm: "distinct (mapKeys m)"
    using assms(1) by (auto simp: c mapKeys_def)
  have new: "emailCache (cacheEmail k d t s) = mapSet k (stamp d t) m"
    using assms(1,3) by (simp add: cacheEmail_def Let_def c mapDelete_first)
  have get: "\<And>k'. k' \<noteq> k0 \<Longrightarrow> mapGet ((k0, v0) # m) k' = mapGet m k'"
    by (simp add: mapGet_def)
  have hd: "hd (mapKeys (emailCache s)) = k0" and tl: "tl (mapKeys (emailCache s)) = mapKeys m"
    by (simp_all add: c mapKeys_def)
  have mem: "k = k0 \<or> k \<in> set (mapKeys m)"
    using assms(2) by (auto simp: c mapKeys_def)
  show ?thesis
    unfolding new hd tl
    using k0 mem by (auto simp: mapKeys_mapSet mapGet_mapSet get c)
qed

theorem recache_at_capacity_witness:
  "(let s = newContextManager\<lparr>emailCache := [(''a'', stamp sampleDigest 1), (''b'', stamp sampleDigest 2)],
                               maxCache := 2\<rparr>
    in distinct (mapKeys (emailCache s)) \<and> ''b'' \<in> set (mapKeys (emailCache s))
       \<and> length (emailCache s) = maxCache s
       \<and> mapKeys (emailCache (cacheEmail ''b'' sampleDigest 3 s)) = [''b'']
       \<and> mapKeys (emailCache (cacheEmail ''a'' sampleDigest 3 s)) = [''b'', ''a''])"
proof -
  let ?s = "newContextManager\<lparr>emailCache := [(''a'', stamp sampleDigest 1), (''b'', stamp sampleDigest 2)],
                               maxCache := 2\<rparr>"
  have h1: "distinct (mapKeys (emailCache ?s))" by (simp add: mapKeys_def)
  have h2: "''b'' \<in> set (mapKeys (emailCache ?s))" by (simp add: mapKeys_def)
  have h2': "''a'' \<in> set (mapKeys (emailCache ?s))" by (simp add: mapKeys_def)
  have h3: "length (emailCache ?s) = maxCache ?s" by simp
  from recache_at_capacity [OF h1 h2 h3, of sampleDigest 3]
       recache_at_capacity [OF h1 h2' h3, of sampleDigest 3] h1 h2 h3
  show ?thesis by (simp add: mapKeys_def Let_def)
qed

text \<open>
  Claim C4. \<open>addExchange\<close> appends one user turn and then one agent turn, with the timestamps
  read at the call, and then drops entries from the front: as many as the history is longer
  than \<open>2 * maxHistory\<close>, so that at most \<open>2 * maxHistory\<close> entries stay. Eleven exchanges
  recorded into a fresh store (\<open>maxHistory = 10\<close>) leave the 20 turns of the last ten
  exchanges; the two turns of the first exchange are gone.
\<close>

theorem addExchange_appends_and_trims:
  "conversationHistory (addExchange u a t1 t2 s) =
     drop (length (conversationHistory s) + 2 - 2 * maxHistory s)
       (conversationHistory s @ [\<lparr>role = ''user'', content = u, timestamp = t1\<rparr>,
                                 \<lparr>role = ''agent'', content = a, timestamp = t2\<rparr>])
   \<and> length (conversationHistory (addExchange u a t1 t2 s)) \<le> 2 * maxHistory s
   \<and> (length xs = 11 \<longrightarrow>
        conversationHistory (recordAll xs newContextManager) = concat (map exchangeTurns (tl xs))
        \<and> length (conversationHistory (recordAll xs newContextManager)) = 20)"
proof -
  have a: "conversationHistory (addExchange u a t1 t2 s) =
     drop (length (conversationHistory s) + 2 - 2 * maxHistory s)
       (conversationHistory s @ [\<lparr>role = ''user'', content = u, timestamp = t1\<rparr>,
                                 \<lparr>role = ''agent'', content = a, timestamp = t2\<rparr>])"
    by (simp add: addExchange_history sliceLast_def exchangeTurns_def mult.commute)
  have b: "length (conversationHistory (addExchange u a t1 t2 s)) \<le> 2 * maxHistory s"
    unfolding a by simp
  have c: "length xs = 11 \<longrightarrow>
        conversationHistory (recordAll xs newContextManager) = concat (map exchangeTurns (tl xs))
        \<and> length (conversationHistory (recordAll xs newContextManager)) = 20"
    by (simp add: recordAll_11 length_exchangeTurns)
  from a b c show ?thesis by blast
qed

theorem addExchange_appends_and_trims_witness:
  "length (sampleExchanges 11) = 11
   \<and> conversationHistory (recordAll (sampleExchanges 11) newContextManager)
       = concat (map exchangeTurns (tl (sampleExchanges 11)))
   \<and> length (conversationHistory (recordAll (sampleExchanges 11) newContextManager)) = 20
   \<and> \<lparr>role = ''user'', content = ''q0'', timestamp = 0\<rparr>
        \<notin> set (conversationHistory (recordAll (sampleExchanges 11) newContextManager))"
proof -
  have h: "length (sampleExchanges 11) = 11" by (simp add: sampleExchanges_def)
  note T = addExchange_appends_and_trims
             [of "''q''" "''a''" 0 0 newContextManager "sampleExchanges 11"]
  have c: "conversationHistory (recordAll (sampleExchanges 11) newContextManager)
             = concat (map exchangeTurns (tl (sampleExchanges 11)))"
    using T h by blast
  have l: "length (conversationHistory (recordAll (sampleExchanges 11) newContextManager)) = 20"
    using T h by blast
  have n: "\<lparr>role = ''user'', content = ''q0'', timestamp = 0\<rparr>
             \<notin> set (conversationHistory (recordAll (sampleExchanges 11) newContextManager))"
    unfolding c by code_simp
  from h c l n show ?thesis by blast
qed

text \<open>
  Claim C5. \<open>addActiveEmails\<close> removes duplicates (the three lemmas below), but
  \<open>setActiveEmails\<close> stores the array it is given as it is: called with an id twice, it
  leaves \<open>activeEmailIds\<close> with that id twice.
\<close>

theorem setActiveEmails_keeps_duplicates:
  "activeEmailIds (setActiveEmails (Many [''m1'', ''m1'']) newContextManager) = [''m1'', ''m1'']
   \<and> \<not> distinct (activeEmailIds (setActiveEmails (Many [''m1'', ''m1'']) newContextManager))"
  by (simp add: setActiveEmails_def)

lemma foldl_setAdd_distinct: "distinct acc \<Longrightarrow> distinct (foldl setAdd acc xs)"
  by (induction xs arbitrary: acc) (auto simp: setAdd_def)

lemma foldl_setAdd_set: "set (foldl setAdd acc xs) = set acc \<union> set xs"
  by (induction xs arbitrary: acc) (auto simp: setAdd_def)

lemma foldl_setAdd_append:
  "foldl setAdd acc xs = acc @ foldl setAdd [] (filter (\<lambda>x. x \<notin> set acc) xs)"
proof (induction xs arbitrary: acc rule: rev_induct)
  case Nil
  show ?case by simp
next
  case (snoc x xs)
  define F where "F = foldl setAdd [] (filter (\<lambda>x. x \<notin> set acc) xs)"
  have IH: "foldl setAdd acc xs = acc @ F" unfolding F_def by (rule snoc)
  have "foldl setAdd acc (xs @ [x]) = setAdd (acc @ F) x" by (simp add: IH)
  also have "\<dots> = acc @ (if x \<in> set acc then F else setAdd F x)"
    by (auto simp: setAdd_def)
  also have "(if x \<in> set acc then F else setAdd F x)
               = foldl setAdd [] (filter (\<lambda>x. x \<notin> set acc) (xs @ [x]))"
    by (simp add: F_def)
  finally show ?case .
qed

lemma newSet_distinct: "distinct (newSet xs)"
  by (simp add: newSet_def foldl_setAdd_distinct)

lemma newSet_id: "distinct xs \<Longrightarrow> newSet xs = xs"
  unfolding newSet_def
  by (induction xs rule: rev_induct) (auto simp: setAdd_def foldl_setAdd_set)

lemma newSet_append: "newSet (xs @ ys) = newSet xs @ newSet (filter (\<lambda>y. y \<notin> set xs) ys)"
  unfolding newSet_def
  by (simp add: foldl_setAdd_append [of "foldl setAdd [] xs" ys] foldl_setAdd_set)

lemma addActiveEmails_distinct: "distinct (activeEmailIds (addActiveEmails i s))"
  by (simp add: addActiveEmails_def Let_def newSet_distinct)

lemma addActiveEmails_order:
  "distinct (activeEmailIds s) \<Longrightarrow>
   activeEmailIds (addActiveEmails i s) =
     activeEmailIds s @ newSet (filter (\<lambda>y. y \<notin> set (activeEmailIds s)) (toArray i))"
  by (simp add: addActiveEmails_def Let_def newSet_append newSet_id)

text \<open>
  Claim C9. \<open>getContextForLLM\<close> returns the empty string when there is no active digest and
  no history, and so on every store that was just cleared. When the history is not empty,
  the output ends with the header of the recent conversation and one line for each of the
  last six history entries (all of them when there are fewer): the role, a colon, and the
  content, cut to its first 147 characters and \<open>...\<close> when it is longer than 150.
\<close>

theorem getContextForLLM_shape:
  "(getActiveDigests s = [] \<and> conversationHistory s = [] \<longrightarrow> getContextForLLM s = [])
   \<and> getContextForLLM (clear s) = []
   \<and> (conversationHistory s \<noteq> [] \<longrightarrow>
        getContextForLLM s =
          join [CHR 0x0A] (emailParts s @ (CHR 0x0A # ''RECENT CONVERSATION:'')
                             # map turnLine (drop (length (conversationHistory s) - 6) (conversationHistory s)))
        \<and> length (drop (length (conversationHistory s) - 6) (conversationHistory s)) \<le> 6)
   \<and> turnLine m = role m @ '': '' @ (if length (content m) > 150 then take 147 (content m) @ ''...''
                                        else content m)"
proof -
  have a: "getActiveDigests s = [] \<and> conversationHistory s = [] \<longrightarrow> getContextForLLM s = []"
    by (simp add: getContextForLLM_def emailParts_def recentParts_def sliceLast_def)
  have b: "getContextForLLM (clear s) = []"
    by (simp add: getContextForLLM_def emailParts_def recentParts_def sliceLast_def clear_def
        getActiveDigests_def List.map_filter_simps)
  have c: "conversationHistory s \<noteq> [] \<longrightarrow>
        getContextForLLM s =
          join [CHR 0x0A] (emailParts s @ (CHR 0x0A # ''RECENT CONVERSATION:'')
                             # map turnLine (drop (length (conversationHistory s) - 6) (conversationHistory s)))
        \<and> length (drop (length (conversationHistory s) - 6) (conversationHistory s)) \<le> 6"
  proof
    assume ne: "conversationHistory s \<noteq> []"
    then have lt: "length (conversationHistory s) - 6 < length (conversationHistory s)"
      by (cases "conversationHistory s") auto
    have le: "length (conversationHistory s) - (length (conversationHistory s) - 6) \<le> 6"
      by arith
    show "getContextForLLM s =
          join [CHR 0x0A] (emailParts s @ (CHR 0x0A # ''RECENT CONVERSATION:'')
                             # map turnLine (drop (length (conversationHistory s) - 6) (conversationHistory s)))
        \<and> length (drop (length (conversationHistory s) - 6) (conversationHistory s)) \<le> 6"
      using lt le by (simp add: getContextForLLM_def recentParts_def sliceLast_def not_le)
  qed
  have d: "turnLine m = role m @ '': '' @ (if length (content m) > 150 then take 147 (content m) @ ''...''
                                        else content m)"
    by (simp add: turnLine_def substring0_def)
  from a b c d show ?thesis by blast
qed

theorem getContextForLLM_shape_witness:
  "getActiveDigests newContextManager = [] \<and> conversationHistory newContextManager = []
   \<and> getContextForLLM newContextManager = []
   \<and> conversationHistory (addExchange ''hi'' ''hello'' 1 2 newContextManager) \<noteq> []
   \<and> getContextForLLM (addExchange ''hi'' ''hello'' 1 2 newContextManager)
        = CHR 0x0A # ''RECENT CONVERSATION:'' @ CHR 0x0A # ''user: hi'' @ CHR 0x0A # ''agent: hello''"
proof -
  let ?s = "addExchange ''hi'' ''hello'' 1 2 newContextManager"
  have h1: "getActiveDigests newContextManager = []" by code_simp
  have h2: "conversationHistory newContextManager = []" by code_simp
  have h3: "conversationHistory ?s \<noteq> []" by code_simp
  have e: "join [CHR 0x0A] (emailParts ?s @ (CHR 0x0A # ''RECENT CONVERSATION:'')
                             # map turnLine (drop (length (conversationHistory ?s) - 6) (conversationHistory ?s)))
        = CHR 0x0A # ''RECENT CONVERSATION:'' @ CHR 0x0A # ''user: hi'' @ CHR 0x0A # ''agent: hello''"
    by code_simp
  from getContextForLLM_shape [of newContextManager] getContextForLLM_shape [of ?s] h1 h2 h3 e
  show ?thesis by metis
qed

section \<open>Regular expressions: proofs\<close>

text \<open>A match consumes a prefix of the input: every end state is a suffix of the start.\<close>

lemma ends_suffix: "e \<in> set (ends r st) \<Longrightarrow> suffix (snd e) (snd st)"
proof (induction r st arbitrary: e rule: ends.induct)
  case (2 P p c cs)
  then show ?case by (auto split: if_splits simp: suffix_Cons)
next
  case (4 a b st)
  then obtain m where a: "m \<in> set (ends a st)" and b: "e \<in> set (ends b m)"
    by auto
  from "4.IH"(1) [OF a] "4.IH"(2) [OF a b] show ?case by (rule suffix_order.trans [rotated])
next
  case (6 a st)
  from "6.prems" consider "e = st"
    | m where "m \<in> set (ends a st)" "length (snd m) < length (snd st)" "e \<in> set (ends (Star a) m)"
    by (subst (asm) ends.simps(6)) (auto split: if_splits)
  then show ?case
  proof cases
    case 1
    then show ?thesis by simp
  next
    case (2 m)
    from "6.IH"(1) [OF 2(1)] "6.IH"(2) [OF 2(1) 2(2) 2(3)]
    show ?thesis by (rule suffix_order.trans [rotated])
  qed
qed (auto split: if_splits option.splits list.splits simp: Let_def)

lemma replaceAll_From: "replaceAll r new s = replaceFrom r new (None, s)"
  by (simp add: replaceAll_def replaceFrom_def)

lemma replaceFrom_step:
  "replaceFrom r new (p, xs) =
     (case ends r (p, xs) of
        [] \<Rightarrow> (case xs of [] \<Rightarrow> [] | c # cs \<Rightarrow> c # replaceFrom r new (Some c, cs))
      | e # _ \<Rightarrow>
          if length (snd e) < length xs then new @ replaceFrom r new e
          else new @ (case xs of [] \<Rightarrow> [] | c # cs \<Rightarrow> c # replaceFrom r new (Some c, cs)))"
  unfolding replaceFrom_def by (subst scan.simps) (auto split: list.splits prod.splits)

text \<open>What a removal (replacement by the empty string) does at one position.\<close>

lemma removal_cases [case_names stop keep hit]:
  obtains (stop) "xs = []" "replaceFrom r [] (p, xs) = []"
  | (keep) c cs where "xs = c # cs" "replaceFrom r [] (p, xs) = c # replaceFrom r [] (Some c, cs)"
      "ends r (p, xs) = [] \<or> \<not> length (snd (hd (ends r (p, xs)))) < length xs"
  | (hit) e where "e \<in> set (ends r (p, xs))" "length (snd e) < length xs"
      "replaceFrom r [] (p, xs) = replaceFrom r [] e"
proof -
  note step = replaceFrom_step [of r "[]" p xs]
  show ?thesis
  proof (cases "ends r (p, xs) = [] \<or> \<not> length (snd (hd (ends r (p, xs)))) < length xs")
    case True
    show ?thesis
    proof (cases xs)
      case Nil
      have "replaceFrom r [] (p, xs) = []"
        using True Nil by (subst step) (auto split: list.splits)
      then show ?thesis using Nil by (rule stop [rotated])
    next
      case (Cons c cs)
      have "replaceFrom r [] (p, xs) = c # replaceFrom r [] (Some c, cs)"
        using True Cons by (subst step) (auto split: list.splits)
      then show ?thesis using Cons True by (intro keep [of c cs])
    qed
  next
    case False
    then obtain e es where e: "ends r (p, xs) = e # es" and l: "length (snd e) < length xs"
      by (cases "ends r (p, xs)") auto
    have "replaceFrom r [] (p, xs) = replaceFrom r [] e"
      using e l by (subst step) simp
    moreover have "e \<in> set (ends r (p, xs))" using e by simp
    ultimately show ?thesis using l by (intro hit [of e])
  qed
qed

lemma eolEnding_Seq: "eolEnding b \<Longrightarrow> eolEnding (Seq a b)"
  by (auto simp: eolEnding_def)

lemma eolEnding_Eol: "eolEnding (Seq Eol Eps)"
  by (auto simp: eolEnding_def split: list.splits if_splits)

lemma isLineTerminator_isSpace: "isLineTerminator c \<Longrightarrow> isSpace c"
  by (auto simp: isLineTerminator_def isSpace_def)

lemma removal_prefix:
  assumes "eolEnding r"
  shows "\<forall>c \<in> set w. \<not> isSpace c \<Longrightarrow> prefix w (replaceFrom r [] (p, xs)) \<Longrightarrow> prefix w xs"
proof (induction xs arbitrary: p w rule: length_induct)
  case (1 xs)
  show ?case
  proof (cases rule: removal_cases [of xs r p])
    case stop
    then show ?thesis using "1.prems" by simp
  next
    case (keep c cs)
    show ?thesis
    proof (cases w)
      case Nil
      then show ?thesis by simp
    next
      case (Cons d w')
      then have "prefix w' (replaceFrom r [] (Some c, cs))" and d: "d = c"
        using "1.prems"(2) keep by auto
      moreover have "\<forall>c \<in> set w'. \<not> isSpace c" using "1.prems"(1) Cons by simp
      ultimately have "prefix w' cs"
        using "1.IH" keep(1) by auto
      then show ?thesis by (simp add: Cons d keep(1))
    qed
  next
    case (hit e)
    have "prefix w (replaceFrom r [] (fst e, snd e))" using "1.prems"(2) hit(3) by simp
    then have pw: "prefix w (snd e)"
      using "1.IH" hit(2) "1.prems"(1) by blast
    have "snd e = [] \<or> isLineTerminator (hd (snd e))"
      using assms hit(1) unfolding eolEnding_def by blast
    then have "w = []"
      using pw "1.prems"(1) by (cases w; cases "snd e") (auto dest: isLineTerminator_isSpace)
    then show ?thesis by simp
  qed
qed

lemma removal_sublist:
  assumes "eolEnding r"
  shows "\<forall>c \<in> set w. \<not> isSpace c \<Longrightarrow> sublist (a # w) (replaceFrom r [] (p, xs)) \<Longrightarrow> sublist (a # w) xs"
proof (induction xs arbitrary: p rule: length_induct)
  case (1 xs)
  show ?case
  proof (cases rule: removal_cases [of xs r p])
    case stop
    then show ?thesis using "1.prems" by simp
  next
    case (keep c cs)
    from "1.prems"(2) keep(2)
    consider "prefix (a # w) (c # replaceFrom r [] (Some c, cs))"
      | "sublist (a # w) (replaceFrom r [] (Some c, cs))"
      by (auto simp: sublist_Cons_right)
    then show ?thesis
    proof cases
      case 1
      then have "a = c" "prefix w (replaceFrom r [] (Some c, cs))" by auto
      then have "prefix (a # w) (c # cs)"
        using removal_prefix [OF assms "1.prems"(1)] by auto
      then show ?thesis by (simp add: keep(1) prefix_imp_sublist)
    next
      case 2
      then have "sublist (a # w) cs"
        using "1.IH" keep(1) "1.prems"(1) by auto
      then show ?thesis by (simp add: keep(1) sublist_Cons_right)
    qed
  next
    case (hit e)
    have "sublist (a # w) (replaceFrom r [] (fst e, snd e))" using "1.prems"(2) hit(3) by simp
    then have "sublist (a # w) (snd e)"
      using "1.IH" hit(2) "1.prems"(1) by blast
    moreover have "suffix (snd e) xs" using ends_suffix [OF hit(1)] by simp
    ultimately show ?thesis
      by (meson sublist_order.order_trans suffix_imp_sublist)
  qed
qed

subsection \<open>Runs of a character class\<close>

lemma star_atom_Nil: "ends (Star (Atom P)) (p, []) = [(p, [])]"
  by (subst ends.simps(6)) simp

lemma star_atom_Cons:
  "ends (Star (Atom P)) (p, c # cs) =
     (if P c then ends (Star (Atom P)) (Some c, cs) else []) @ [(p, c # cs)]"
  by (subst ends.simps(6)) simp

lemma star_atom_hd:
  "\<exists>es. ends (Star (Atom P)) (p, xs) =
     (if takeWhile P xs = [] then p else Some (last (takeWhile P xs)), dropWhile P xs) # es"
proof (induction xs arbitrary: p)
  case Nil
  show ?case by (simp add: star_atom_Nil)
next
  case (Cons c cs)
  show ?case
  proof (cases "P c")
    case True
    from Cons [of "Some c"] obtain es where
      "ends (Star (Atom P)) (Some c, cs) =
         (if takeWhile P cs = [] then Some c else Some (last (takeWhile P cs)), dropWhile P cs) # es"
      by blast
    then show ?thesis using True by (simp add: star_atom_Cons)
  next
    case False
    then show ?thesis by (simp add: star_atom_Cons)
  qed
qed

lemma ends_copies_atom:
  "ends (copies k (Atom P)) (p, xs) =
     (if k \<le> length (takeWhile P xs)
      then [(if k = 0 then p else Some (xs ! (k - 1)), drop k xs)] else [])"
proof (induction k arbitrary: p xs)
  case 0
  show ?case by simp
next
  case (Suc k)
  show ?case
  proof (cases xs)
    case Nil
    then show ?thesis by simp
  next
    case (Cons c cs)
    then show ?thesis using Suc [of "Some c" cs] by (cases k) auto
  qed
qed

text \<open>The match of \<open>P{k,}\<close> at a position: the whole run of \<open>P\<close>, if it has \<open>k\<close> characters.\<close>

lemma ends_orMore:
  assumes "0 < k"
  shows "ends (orMore k (Atom P)) (p, xs) =
     (if k \<le> length (takeWhile P xs)
      then ends (Star (Atom P)) (Some (xs ! (k - 1)), drop k xs) else [])"
  using assms by (simp add: orMore_def ends_copies_atom)

lemma dropWhile_drop_run:
  "k \<le> length (takeWhile P xs) \<Longrightarrow> dropWhile P (drop k xs) = dropWhile P xs"
proof (induction k arbitrary: xs)
  case 0
  show ?case by simp
next
  case (Suc k)
  then show ?case by (cases xs) (auto split: if_splits)
qed

lemma orMore_hit:
  assumes "0 < k" "k \<le> length (takeWhile P xs)"
  shows "\<exists>q es. ends (orMore k (Atom P)) (p, xs) = (q, dropWhile P xs) # es"
proof -
  from star_atom_hd [of P "Some (xs ! (k - 1))" "drop k xs"]
  show ?thesis
    using assms by (auto simp: ends_orMore dropWhile_drop_run)
qed

lemma length_dropWhile_run:
  "0 < k \<Longrightarrow> k \<le> length (takeWhile P xs) \<Longrightarrow> length (dropWhile P xs) < length xs"
  by (metis add_diff_cancel_right' diff_is_0_eq' length_append length_greater_0_conv
      less_add_same_cancel2 list.size(3) not_le order.strict_trans2 takeWhile_dropWhile_id)

text \<open>What the replacement of the runs \<open>P{k,}\<close> by \<open>new\<close> does at one position.\<close>

lemma run_cases [consumes 1, case_names stop keep hit]:
  assumes "0 < k"
  obtains (stop) "xs = []" "replaceFrom (orMore k (Atom P)) new (p, xs) = []"
  | (keep) c cs where "xs = c # cs" "length (takeWhile P xs) < k"
      "replaceFrom (orMore k (Atom P)) new (p, xs) = c # replaceFrom (orMore k (Atom P)) new (Some c, cs)"
  | (hit) q where "k \<le> length (takeWhile P xs)"
      "replaceFrom (orMore k (Atom P)) new (p, xs)
         = new @ replaceFrom (orMore k (Atom P)) new (q, dropWhile P xs)"
proof (cases "k \<le> length (takeWhile P xs)")
  case True
  from orMore_hit [OF assms True, of p] obtain q es where
    e: "ends (orMore k (Atom P)) (p, xs) = (q, dropWhile P xs) # es" by blast
  have "replaceFrom (orMore k (Atom P)) new (p, xs)
         = new @ replaceFrom (orMore k (Atom P)) new (q, dropWhile P xs)"
    using length_dropWhile_run [OF assms True] by (subst replaceFrom_step) (simp add: e)
  then show ?thesis using True by (intro hit [of q])
next
  case False
  then have e: "ends (orMore k (Atom P)) (p, xs) = []"
    using assms by (simp add: ends_orMore)
  show ?thesis
  proof (cases xs)
    case Nil
    then show ?thesis using e by (intro stop) (simp_all add: replaceFrom_step [of _ _ p "[]"])
  next
    case (Cons c cs)
    have "replaceFrom (orMore k (Atom P)) new (p, xs)
            = c # replaceFrom (orMore k (Atom P)) new (Some c, cs)"
      using e Cons by (subst replaceFrom_step) simp
    then show ?thesis using Cons False by (intro keep [of c cs]) simp_all
  qed
qed

lemma run_prefix:
  assumes "0 < k" "new \<noteq> []" "\<forall>c \<in> set new. P c"
  shows "\<forall>c \<in> set w. \<not> P c \<Longrightarrow>
         prefix w (replaceFrom (orMore k (Atom P)) new (p, xs)) \<Longrightarrow> prefix w xs"
proof (induction xs arbitrary: p w rule: length_induct)
  case (1 xs)
  from assms(1) show ?case
  proof (cases rule: run_cases [where k = k and xs = xs and P = P and new = new and p = p])
    case stop
    then show ?thesis using "1.prems" by simp
  next
    case (keep c cs)
    show ?thesis
    proof (cases w)
      case Nil
      then show ?thesis by simp
    next
      case (Cons d w')
      then have "prefix w' (replaceFrom (orMore k (Atom P)) new (Some c, cs))" and d: "d = c"
        using "1.prems"(2) keep by auto
      moreover have "\<forall>c \<in> set w'. \<not> P c" using "1.prems"(1) Cons by simp
      ultimately have "prefix w' cs"
        using "1.IH" keep(1) by auto
      then show ?thesis by (simp add: Cons d keep(1))
    qed
  next
    case (hit q)
    obtain n new' where n: "new = n # new'" using assms(2) by (cases new) auto
    then have "P n" using assms(3) by simp
    then have "w = []"
      using "1.prems" hit(2) n by (cases w) auto
    then show ?thesis by simp
  qed
qed

lemma run_sublist:
  assumes "0 < k" "new \<noteq> []" "\<forall>c \<in> set new. P c" "P a \<longrightarrow> (\<forall>x. P x \<longrightarrow> x = a)"
  shows "\<forall>c \<in> set w. \<not> P c \<Longrightarrow>
         sublist (a # w) (replaceFrom (orMore k (Atom P)) new (p, xs)) \<Longrightarrow> sublist (a # w) xs"
proof (induction xs arbitrary: p rule: length_induct)
  case (1 xs)
  let ?r = "orMore k (Atom P)"
  from assms(1) show ?case
  proof (cases rule: run_cases [where k = k and xs = xs and P = P and new = new and p = p])
    case stop
    then show ?thesis using "1.prems" by simp
  next
    case (keep c cs)
    from "1.prems"(2) keep(3)
    consider "prefix (a # w) (c # replaceFrom ?r new (Some c, cs))"
      | "sublist (a # w) (replaceFrom ?r new (Some c, cs))"
      by (auto simp: sublist_Cons_right)
    then show ?thesis
    proof cases
      case 1
      then have "a = c" "prefix w (replaceFrom ?r new (Some c, cs))" by auto
      then have "prefix (a # w) (c # cs)"
        using run_prefix [OF assms(1-3) "1.prems"(1)] by auto
      then show ?thesis by (simp add: keep(1) prefix_imp_sublist)
    next
      case 2
      then have "sublist (a # w) cs"
        using "1.IH" keep(1) "1.prems"(1) by auto
      then show ?thesis by (simp add: keep(1) sublist_Cons_right)
    qed
  next
    case (hit q)
    let ?ys = "dropWhile P xs"
    let ?run = "takeWhile P xs"
    have xs: "xs = ?run @ ?ys" by simp
    have run: "?run \<noteq> []" using hit(1) assms(1) by auto
    have less: "length ?ys < length xs" by (rule length_dropWhile_run [OF assms(1) hit(1)])
    have inner: "sublist (a # w) (replaceFrom ?r new (q, ?ys)) \<Longrightarrow> sublist (a # w) xs"
    proof -
      assume "sublist (a # w) (replaceFrom ?r new (q, ?ys))"
      then have "sublist (a # w) ?ys" using "1.IH" less "1.prems"(1) by blast
      then show "sublist (a # w) xs"
        by (meson sublist_order.order_trans suffix_dropWhile suffix_imp_sublist)
    qed
    have single: "P a \<Longrightarrow> last ?run = a"
      using assms(4) run by (metis last_in_set set_takeWhileD)
    have border: "P a \<Longrightarrow> prefix w (replaceFrom ?r new (q, ?ys)) \<Longrightarrow> sublist (a # w) xs"
    proof -
      assume a: "P a" and "prefix w (replaceFrom ?r new (q, ?ys))"
      then have "prefix w ?ys" using run_prefix [OF assms(1-3) "1.prems"(1)] by blast
      then obtain zs where zs: "?ys = w @ zs" by (auto simp: prefix_def)
      have "xs = butlast ?run @ (a # w) @ zs"
        using single [OF a] run zs by (metis append.assoc append_Cons append_Nil snoc_eq_iff_butlast xs)
      then show "sublist (a # w) xs" by (metis sublist_appendI)
    qed
    from "1.prems"(2) hit(2)
    have "sublist (a # w) (new @ replaceFrom ?r new (q, ?ys))" by simp
    then consider "sublist (a # w) new" | "sublist (a # w) (replaceFrom ?r new (q, ?ys))"
      | x1 x2 where "a # w = x1 @ x2" "suffix x1 new" "prefix x2 (replaceFrom ?r new (q, ?ys))"
      by (auto simp: sublist_append)
    then show ?thesis
    proof cases
      case 1
      then have sub: "set (a # w) \<subseteq> set new" by (rule set_mono_sublist)
      then have a: "P a" using assms(3) by auto
      have "w = []"
      proof (cases w)
        case (Cons d w')
        then have "P d" using sub assms(3) by auto
        then show ?thesis using "1.prems"(1) Cons by simp
      qed simp
      then have "prefix w (replaceFrom ?r new (q, ?ys))" by simp
      then show ?thesis using border [OF a] by blast
    next
      case 2
      then show ?thesis by (rule inner)
    next
      case (3 x1 x2)
      show ?thesis
      proof (cases x1)
        case Nil
        then have "sublist (a # w) (replaceFrom ?r new (q, ?ys))"
          using 3 by (simp add: prefix_imp_sublist)
        then show ?thesis by (rule inner)
      next
        case (Cons b x1')
        then have b: "b = a" and w: "w = x1' @ x2" using 3(1) by auto
        have sub: "set x1 \<subseteq> set new" using 3(2) by (rule set_mono_suffix)
        then have a: "P a" using assms(3) Cons b by auto
        have "x1' = []"
        proof (cases x1')
          case (Cons d x1'')
          then have "P d" using sub assms(3) \<open>x1 = b # x1'\<close> by auto
          then show ?thesis using "1.prems"(1) w Cons by simp
        qed simp
        then have "prefix w (replaceFrom ?r new (q, ?ys))" using 3(3) w by simp
        then show ?thesis using border [OF a] by blast
      qed
    qed
  qed
qed

lemma sublist_trim: "sublist (trim s) s"
proof -
  have "prefix (rev (dropWhile isSpace (rev ys))) ys" for ys
    by (metis prefix_def rev_append rev_rev_ident takeWhile_dropWhile_id)
  then have "sublist (trim s) (dropWhile isSpace s)"
    unfolding trim_def by (rule prefix_imp_sublist)
  moreover have "sublist (dropWhile isSpace s) s"
    by (metis suffix_dropWhile suffix_imp_sublist)
  ultimately show ?thesis by (rule sublist_order.order_trans)
qed

subsection \<open>No three newlines in a row\<close>

lemma newlines3_run: "newlines3 = orMore 3 (Atom (\<lambda>c. c = nl))"
  by (simp add: newlines3_def ch_def)

lemma newlines_lead:
  "prefix (replicate j nl) (replaceFrom newlines3 [nl, nl] (p, xs)) \<Longrightarrow>
   j \<le> length (takeWhile (\<lambda>c. c = nl) xs)"
proof (induction xs arbitrary: p j rule: length_induct)
  case (1 xs)
  let ?P = "\<lambda>c. c = nl"
  have "0 < (3::nat)" by simp
  then show ?case
  proof (cases rule: run_cases [where k = 3 and xs = xs and P = ?P and new = "[nl, nl]" and p = p])
    case stop
    then show ?thesis using "1.prems" by (simp add: newlines3_run)
  next
    case (keep c cs)
    show ?thesis
    proof (cases j)
      case 0
      then show ?thesis by simp
    next
      case (Suc j')
      then have c: "c = nl"
        and "prefix (replicate j' nl) (replaceFrom newlines3 [nl, nl] (Some c, cs))"
        using "1.prems" keep(3) by (auto simp: newlines3_run)
      then have "j' \<le> length (takeWhile ?P cs)"
        using "1.IH" keep(1) by auto
      then show ?thesis using Suc c keep(1) by simp
    qed
  next
    case (hit q)
    have less: "length (dropWhile ?P xs) < length xs"
      by (rule length_dropWhile_run [OF _ hit(1)]) simp
    have "j \<le> 2"
    proof (rule ccontr)
      assume "\<not> j \<le> 2"
      then obtain i where j: "j = Suc (Suc (Suc i))"
        by (metis Suc_leI not_less_eq_eq numeral_2_eq_2 not0_implies_Suc le0)
      then have "prefix ([nl] @ replicate i nl) (replaceFrom newlines3 [nl, nl] (q, dropWhile ?P xs))"
        using "1.prems" hit(2) by (simp add: newlines3_run)
      then have "prefix [nl] (replaceFrom newlines3 [nl, nl] (q, dropWhile ?P xs))"
        by (rule append_prefixD)
      then have "prefix (replicate (Suc 0) nl) (replaceFrom newlines3 [nl, nl] (q, dropWhile ?P xs))"
        by simp
      then have "Suc 0 \<le> length (takeWhile ?P (dropWhile ?P xs))"
        using "1.IH" less by blast
      moreover have "takeWhile ?P (dropWhile ?P xs) = []"
        by (metis dropWhile_eq_Nil_conv hd_dropWhile list.collapse takeWhile.simps(2) takeWhile.simps(1))
      ultimately show False by simp
    qed
    then show ?thesis using hit(1) by simp
  qed
qed

lemma newlines3_none:
  "\<not> sublist [nl, nl, nl] (replaceFrom newlines3 [nl, nl] (p, xs))"
proof (induction xs arbitrary: p rule: length_induct)
  case (1 xs)
  let ?P = "\<lambda>c. c = nl"
  have "0 < (3::nat)" by simp
  then show ?case
  proof (cases rule: run_cases [where k = 3 and xs = xs and P = ?P and new = "[nl, nl]" and p = p])
    case stop
    then show ?thesis by (simp add: newlines3_run)
  next
    case (keep c cs)
    have rest: "\<not> sublist [nl, nl, nl] (replaceFrom newlines3 [nl, nl] (Some c, cs))"
      using "1.IH" keep(1) by simp
    have "\<not> prefix [nl, nl, nl] (c # replaceFrom newlines3 [nl, nl] (Some c, cs))"
    proof
      assume "prefix [nl, nl, nl] (c # replaceFrom newlines3 [nl, nl] (Some c, cs))"
      then have c: "c = nl"
        and "prefix (replicate 2 nl) (replaceFrom newlines3 [nl, nl] (Some c, cs))"
        by (auto simp: numeral_2_eq_2)
      then have "2 \<le> length (takeWhile ?P cs)"
        using newlines_lead [of 2 "Some c" cs] by simp
      then show False using keep(1,2) c by simp
    qed
    then show ?thesis
      using rest keep(3) by (simp add: newlines3_run sublist_Cons_right)
  next
    case (hit q)
    let ?out = "replaceFrom newlines3 [nl, nl] (q, dropWhile ?P xs)"
    have less: "length (dropWhile ?P xs) < length xs"
      by (rule length_dropWhile_run [OF _ hit(1)]) simp
    have rest: "\<not> sublist [nl, nl, nl] ?out"
      using "1.IH" less by blast
    have "\<not> prefix (replicate (Suc 0) nl) ?out"
    proof
      assume "prefix (replicate (Suc 0) nl) ?out"
      then have "Suc 0 \<le> length (takeWhile ?P (dropWhile ?P xs))" by (rule newlines_lead)
      moreover have "takeWhile ?P (dropWhile ?P xs) = []"
        by (metis dropWhile_eq_Nil_conv hd_dropWhile list.collapse takeWhile.simps(2) takeWhile.simps(1))
      ultimately show False by simp
    qed
    then have n1: "\<not> prefix [nl] ?out" by simp
    have n2: "\<not> prefix [nl, nl] ?out"
    proof
      assume "prefix [nl, nl] ?out"
      then have "prefix ([nl] @ [nl]) ?out" by simp
      then have "prefix [nl] ?out" by (rule append_prefixD)
      then show False using n1 by simp
    qed
    show ?thesis
      using rest n1 n2 hit(2) by (auto simp: newlines3_run sublist_Cons_right)
  qed
qed

subsection \<open>Removals up to the end of the line\<close>

lemma eolEnding_seqs: "rs \<noteq> [] \<Longrightarrow> last rs = Eol \<Longrightarrow> eolEnding (seqs rs)"
proof (induction rs)
  case Nil
  then show ?case by simp
next
  case (Cons a rs)
  show ?case
  proof (cases rs)
    case Nil
    then show ?thesis using Cons.prems eolEnding_Eol by (simp add: seqs_def)
  next
    case (Cons b rs')
    then have "eolEnding (seqs rs)" using Cons.IH Cons.prems by simp
    then show ?thesis using eolEnding_Seq [of "seqs rs" a] by (simp add: seqs_def)
  qed
qed

lemma footerPatterns_eol: "r \<in> set footerPatterns \<Longrightarrow> eolEnding r"
  unfolding footerPatterns_def by (auto intro!: eolEnding_seqs)

lemma quotedPattern_eol: "eolEnding quotedPattern"
  unfolding quotedPattern_def by (auto intro!: eolEnding_seqs)

lemma wrotePattern_eol: "eolEnding wrotePattern"
  unfolding wrotePattern_def by (auto intro!: eolEnding_seqs)

lemma removals_sublist:
  assumes "\<forall>r \<in> set rs. eolEnding r" "\<forall>c \<in> set w. \<not> isSpace c"
  shows "sublist (a # w) (foldl (\<lambda>c pattern. replaceAll pattern [] c) s rs) \<Longrightarrow> sublist (a # w) s"
  using assms(1)
proof (induction rs arbitrary: s)
  case Nil
  then show ?case by simp
next
  case (Cons r rs)
  then have "sublist (a # w) (replaceAll r [] s)" by simp
  then show ?case
    using removal_sublist [of r w a None s] Cons.prems(2) assms(2) by (simp add: replaceAll_From)
qed

subsection \<open>Lines that start with the quote sign\<close>

lemma quoted_nomatch_Nil: "ends quotedPattern (p, []) = []"
  by (cases p) (simp_all add: quotedPattern_def seqs_def ch_def)

lemma quoted_nomatch: "c \<noteq> CHR ''>'' \<Longrightarrow> ends quotedPattern (p, c # cs) = []"
  by (cases p) (simp_all add: quotedPattern_def seqs_def ch_def)

lemma quoted_match:
  assumes "atBol p"
  shows "ends quotedPattern (p, CHR ''>'' # cs) \<noteq> []"
proof -
  define ys where "ys = dropWhile (\<lambda>c. \<not> isLineTerminator c) cs"
  from star_atom_hd [of "\<lambda>c. \<not> isLineTerminator c" "Some CHR ''>''" cs]
  obtain q es where s: "ends (Star anyChar) (Some CHR ''>'', cs) = (q, ys) # es"
    unfolding ys_def by blast
  have "ys = [] \<or> isLineTerminator (hd ys)"
    unfolding ys_def using hd_dropWhile [of "\<lambda>c. \<not> isLineTerminator c" cs] by auto
  then have e: "ends (Seq Eol Eps) (q, ys) \<noteq> []"
    by (cases ys) auto
  have "ends quotedPattern (p, CHR ''>'' # cs)
          = concat (map (ends (Seq Eol Eps)) (ends (Star anyChar) (Some CHR ''>'', cs)))"
    using assms by (cases p) (simp_all add: quotedPattern_def seqs_def ch_def atBol_def)
  also have "\<dots> = ends (Seq Eol Eps) (q, ys) @ concat (map (ends (Seq Eol Eps)) es)"
    unfolding s by simp
  finally show ?thesis using e by simp
qed

lemma quoted_consuming:
  assumes "e \<in> set (ends quotedPattern (p, xs))"
  shows "length (snd e) < length xs"
proof (cases xs)
  case Nil
  then show ?thesis using assms by (simp add: quoted_nomatch_Nil)
next
  case (Cons c cs)
  have c: "c = CHR ''>''"
  proof (rule ccontr)
    assume "c \<noteq> CHR ''>''"
    then have "ends quotedPattern (p, c # cs) = []" by (rule quoted_nomatch)
    then show False using assms Cons by simp
  qed
  let ?tail = "seqs [Star anyChar, Eol]"
  have "ends quotedPattern (p, xs) = (if atBol p then ends ?tail (Some CHR ''>'', cs) else [])"
    by (cases p) (auto simp: quotedPattern_def seqs_def ch_def atBol_def Cons c)
  then have "e \<in> set (ends ?tail (Some CHR ''>'', cs))"
    using assms by (auto split: if_splits)
  then have "suffix (snd e) cs" using ends_suffix by fastforce
  then show ?thesis using Cons by (auto dest: suffix_length_le)
qed

lemma quoted_removed: "\<not> lineStartGt p (replaceFrom quotedPattern [] (p, xs))"
proof (induction xs arbitrary: p rule: length_induct)
  case (1 xs)
  show ?case
  proof (cases rule: removal_cases [of xs quotedPattern p])
    case stop
    then show ?thesis by simp
  next
    case (keep c cs)
    have "\<not> (c = CHR ''>'' \<and> atBol p)"
    proof
      assume a: "c = CHR ''>'' \<and> atBol p"
      then have ne: "ends quotedPattern (p, xs) \<noteq> []"
        using quoted_match [of p cs] keep(1) by simp
      then have "hd (ends quotedPattern (p, xs)) \<in> set (ends quotedPattern (p, xs))" by simp
      then have "length (snd (hd (ends quotedPattern (p, xs)))) < length xs"
        by (rule quoted_consuming)
      then show False using keep(3) ne by simp
    qed
    moreover have "\<not> lineStartGt (Some c) (replaceFrom quotedPattern [] (Some c, cs))"
      using "1.IH" keep(1) by simp
    ultimately show ?thesis using keep(2) by simp
  next
    case (hit e)
    obtain q ys where e: "e = (q, ys)" by (cases e)
    have eol: "ys = [] \<or> isLineTerminator (hd ys)"
      using quotedPattern_eol hit(1) e unfolding eolEnding_def by fastforce
    show ?thesis
    proof (cases ys)
      case Nil
      then have "replaceFrom quotedPattern [] (q, ys) = []"
        by (subst replaceFrom_step) (simp add: quoted_nomatch_Nil)
      then show ?thesis using hit(3) e by simp
    next
      case (Cons l ys')
      then have l: "isLineTerminator l" using eol by simp
      then have ne: "l \<noteq> CHR ''>''" by (auto simp: isLineTerminator_def)
      have out: "replaceFrom quotedPattern [] (q, ys) = l # replaceFrom quotedPattern [] (Some l, ys')"
        by (subst replaceFrom_step) (simp add: Cons quoted_nomatch [OF ne])
      have "\<not> lineStartGt (Some l) (replaceFrom quotedPattern [] (Some l, ys'))"
        using "1.IH" hit(2) e Cons by simp
      then show ?thesis using hit(3) e out ne by simp
    qed
  qed
qed

lemma lineStartGt_sublist:
  "isLineTerminator l \<Longrightarrow> sublist [l, CHR ''>''] s \<Longrightarrow> lineStartGt p s"
proof (induction s arbitrary: p)
  case Nil
  then show ?case by simp
next
  case (Cons c cs)
  from Cons.prems(2) consider "prefix [l, CHR ''>''] (c # cs)" | "sublist [l, CHR ''>''] cs"
    by (auto simp: sublist_Cons_right)
  then show ?case
  proof cases
    case 1
    then obtain cs' where "c = l" "cs = CHR ''>'' # cs'" by (auto simp: prefix_def)
    then show ?thesis using Cons.prems(1) by (simp add: atBol_def)
  next
    case 2
    then show ?thesis using Cons.IH Cons.prems(1) by simp
  qed
qed

lemma quoted_none:
  "isLineTerminator l \<Longrightarrow> \<not> sublist [l, CHR ''>''] (replaceAll quotedPattern [] s)"
  using quoted_removed [of None s] lineStartGt_sublist [of l _ None]
  by (auto simp: replaceAll_From)

subsection \<open>Matches of the URL pattern\<close>

lemma urlColon_iff: "ends urlColon (p, xs) \<noteq> [] \<longleftrightarrow> urlTail xs"
proof (induction xs rule: urlTail.induct)
  case (1 a b c g uu)
  from star_atom_hd [of urlChar "Some g" uu] obtain q es where
    s: "ends (Star (Atom urlChar)) (Some g, uu) = (q, dropWhile urlChar uu) # es" by blast
  show ?case
    by (auto simp: urlColon_def lit_def seqs_def ch_def many1_def s)
qed (simp_all add: urlColon_def lit_def seqs_def ch_def many1_def)

lemma canon_simps:
  "canonicalize CHR ''h'' = CHR ''H''" "canonicalize CHR ''t'' = CHR ''T''"
  "canonicalize CHR ''p'' = CHR ''P''" "canonicalize CHR ''s'' = CHR ''S''"
  by (simp_all add: canonicalize_def)

lemma urlPattern_unfold:
  "ends urlPattern st =
     concat (map (\<lambda>m. ends (Seq (ci CHR ''s'') urlColon) m @ ends urlColon m) (ends (liti ''http'') st))"
proof -
  have 1: "urlPattern = Seq (liti ''http'') (Seq (opt (ci CHR ''s'')) urlColon)"
    by (simp add: urlPattern_def seqs_def urlColon_def)
  have 2: "ends (Seq (opt (ci CHR ''s'')) urlColon)
             = (\<lambda>m. ends (Seq (ci CHR ''s'') urlColon) m @ ends urlColon m)"
    by (rule ext) (simp add: opt_def)
  show ?thesis unfolding 1 by (subst ends.simps(4)) (simp only: 2)
qed

lemma url_match_iff: "ends urlPattern (p, xs) \<noteq> [] \<longleftrightarrow> urlAt xs"
proof (induction xs rule: urlAt.induct)
  case (1 h t t' p' rest)
  have o: "ends (Seq (ci CHR ''s'') urlColon) (Some p', rest) \<noteq> [] \<longleftrightarrow>
           (case rest of [] \<Rightarrow> False | s # rest' \<Rightarrow> canonicalize s = CHR ''S'' \<and> urlTail rest')"
    using urlColon_iff by (cases rest) (simp_all add: ci_def canon_simps)
  show ?case
    unfolding urlPattern_unfold
    using o urlColon_iff [of "Some p'" rest]
    by (simp add: liti_def seqs_def ci_def canon_simps)
qed (simp_all add: urlPattern_unfold liti_def seqs_def ci_def)

lemma search_iff:
  assumes "\<And>p ys. (ends r (p, ys) \<noteq> []) = A ys"
  shows "search r (p, xs) \<longleftrightarrow> (\<exists>ys. suffix ys xs \<and> A ys)"
proof (induction xs arbitrary: p)
  case Nil
  show ?case by (simp add: assms)
next
  case (Cons x xs)
  show ?case
    unfolding search.simps Cons.IH assms by (auto simp: suffix_Cons)
qed

lemma test_url_iff: "test urlPattern s \<longleftrightarrow> (\<exists>ys. suffix ys s \<and> urlAt ys)"
  unfolding test_def by (rule search_iff) (rule url_match_iff)

lemma canon_cases:
  "canonicalize c = c \<or>
   (c, canonicalize c) \<in> set (zip ''abcdefghijklmnopqrstuvwxyz'' ''ABCDEFGHIJKLMNOPQRSTUVWXYZ'')"
  unfolding canonicalize_def
  by (cases "map_of (zip ''abcdefghijklmnopqrstuvwxyz'' ''ABCDEFGHIJKLMNOPQRSTUVWXYZ'') c")
     (auto dest: map_of_SomeD simp del: map_of.simps zip.simps)

lemma canon_H: "canonicalize c = CHR ''H'' \<longleftrightarrow> c = CHR ''H'' \<or> c = CHR ''h''"
proof
  assume "canonicalize c = CHR ''H''"
  then show "c = CHR ''H'' \<or> c = CHR ''h''" using canon_cases [of c] by simp blast
next
  assume "c = CHR ''H'' \<or> c = CHR ''h''"
  then show "canonicalize c = CHR ''H''" by (rule disjE) (simp_all add: canonicalize_def)
qed

lemma canon_T: "canonicalize c = CHR ''T'' \<longleftrightarrow> c = CHR ''T'' \<or> c = CHR ''t''"
proof
  assume "canonicalize c = CHR ''T''"
  then show "c = CHR ''T'' \<or> c = CHR ''t''" using canon_cases [of c] by simp blast
next
  assume "c = CHR ''T'' \<or> c = CHR ''t''"
  then show "canonicalize c = CHR ''T''" by (rule disjE) (simp_all add: canonicalize_def)
qed

lemma canon_P: "canonicalize c = CHR ''P'' \<longleftrightarrow> c = CHR ''P'' \<or> c = CHR ''p''"
proof
  assume "canonicalize c = CHR ''P''"
  then show "c = CHR ''P'' \<or> c = CHR ''p''" using canon_cases [of c] by simp blast
next
  assume "c = CHR ''P'' \<or> c = CHR ''p''"
  then show "canonicalize c = CHR ''P''" by (rule disjE) (simp_all add: canonicalize_def)
qed

lemma canon_S: "canonicalize c = CHR ''S'' \<longleftrightarrow> c = CHR ''S'' \<or> c = CHR ''s''"
proof
  assume "canonicalize c = CHR ''S''"
  then show "c = CHR ''S'' \<or> c = CHR ''s''" using canon_cases [of c] by simp blast
next
  assume "c = CHR ''S'' \<or> c = CHR ''s''"
  then show "canonicalize c = CHR ''S''" by (rule disjE) (simp_all add: canonicalize_def)
qed

lemmas canon_iff = canon_H canon_T canon_P canon_S

lemma canon_letter:
  assumes "canonicalize c = CHR ''H'' \<or> canonicalize c = CHR ''T'' \<or> canonicalize c = CHR ''P''
           \<or> canonicalize c = CHR ''S''"
  shows "\<not> isSpace c" "c \<noteq> CHR ''[''"
proof -
  have "c \<in> set ''HhTtPpSs''"
    using assms unfolding canon_iff by simp
  then show "\<not> isSpace c" "c \<noteq> CHR ''[''"
    by (auto simp: isSpace_def)
qed

lemma urlChar_space: "urlChar g \<Longrightarrow> \<not> isSpace g"
  by (simp add: urlChar_def)

lemma urlChar_H:
  assumes "canonicalize g = CHR ''H''"
  shows "urlChar g"
proof -
  from assms have "g = CHR ''H'' \<or> g = CHR ''h''" by (simp add: canon_H)
  then show ?thesis by (auto simp: urlChar_def isSpace_def)
qed

text \<open>The shape of a text with a URL match at its start.\<close>

lemma urlTail_shape:
  assumes "urlTail xs"
  obtains g zs where "xs = CHR '':'' # CHR ''/'' # CHR ''/'' # g # zs" "urlChar g"
  using assms by (cases xs rule: urlTail.cases) simp_all

lemma urlAt_shape:
  assumes "urlAt xs"
  obtains h t t' p rest where "xs = h # t # t' # p # rest"
    "canonicalize h = CHR ''H''" "canonicalize t = CHR ''T''"
    "canonicalize t' = CHR ''T''" "canonicalize p = CHR ''P''"
    "(\<exists>s rest'. rest = s # rest' \<and> canonicalize s = CHR ''S'' \<and> urlTail rest') \<or> urlTail rest"
  using assms by (cases xs rule: urlAt.cases) (auto split: list.splits)

lemma urlAt_window:
  assumes "urlAt xs"
  obtains a v g zs where "xs = a # v @ g # zs" "canonicalize a = CHR ''H''"
    "\<forall>c \<in> set v. \<not> isSpace c" "CHR ''['' \<notin> set v" "urlChar g"
    "\<And>g' ys. urlChar g' \<Longrightarrow> urlAt (a # v @ g' # ys)"
proof -
  from assms obtain h t t' p rest where xs: "xs = h # t # t' # p # rest"
    and c: "canonicalize h = CHR ''H''" "canonicalize t = CHR ''T''"
           "canonicalize t' = CHR ''T''" "canonicalize p = CHR ''P''"
    and r: "(\<exists>s rest'. rest = s # rest' \<and> canonicalize s = CHR ''S'' \<and> urlTail rest') \<or> urlTail rest"
    by (rule urlAt_shape)
  have colon: "\<not> isSpace CHR '':''" "\<not> isSpace CHR ''/''"
    by (simp_all add: isSpace_def)
  have nt: "\<not> isSpace t" "\<not> isSpace t'" "\<not> isSpace p" "t \<noteq> CHR ''[''" "t' \<noteq> CHR ''[''" "p \<noteq> CHR ''[''"
    using c canon_letter [of t] canon_letter [of t'] canon_letter [of p] by simp_all
  from r show ?thesis
  proof
    assume "\<exists>s rest'. rest = s # rest' \<and> canonicalize s = CHR ''S'' \<and> urlTail rest'"
    then obtain s rest' where s: "rest = s # rest'" "canonicalize s = CHR ''S''" and "urlTail rest'"
      by blast
    then obtain g zs where rest': "rest' = CHR '':'' # CHR ''/'' # CHR ''/'' # g # zs" and g: "urlChar g"
      by (auto elim: urlTail_shape)
    have ns: "\<not> isSpace s" "s \<noteq> CHR ''[''" using s(2) canon_letter [of s] by simp_all
    show ?thesis
    proof (rule that [of h "[t, t', p, s, CHR '':'', CHR ''/'', CHR ''/'']" g zs])
      show "xs = h # [t, t', p, s, CHR '':'', CHR ''/'', CHR ''/''] @ g # zs"
        by (simp add: xs s(1) rest')
      show "\<forall>c \<in> set [t, t', p, s, CHR '':'', CHR ''/'', CHR ''/'']. \<not> isSpace c"
        using nt ns colon by simp
      show "CHR ''['' \<notin> set [t, t', p, s, CHR '':'', CHR ''/'', CHR ''/'']"
        using nt ns by simp
      show "urlAt (h # [t, t', p, s, CHR '':'', CHR ''/'', CHR ''/''] @ g' # ys)" if "urlChar g'" for g' ys
        using that c s(2) by simp
      show "canonicalize h = CHR ''H''" by (rule c(1))
      show "urlChar g" by (rule g)
    qed
  next
    assume "urlTail rest"
    then obtain g zs where rest: "rest = CHR '':'' # CHR ''/'' # CHR ''/'' # g # zs"
      and g: "urlChar g"
      by (auto elim: urlTail_shape)
    show ?thesis
    proof (rule that [of h "[t, t', p, CHR '':'', CHR ''/'', CHR ''/'']" g zs])
      show "xs = h # [t, t', p, CHR '':'', CHR ''/'', CHR ''/''] @ g # zs"
        by (simp add: xs rest)
      show "\<forall>c \<in> set [t, t', p, CHR '':'', CHR ''/'', CHR ''/'']. \<not> isSpace c"
        using nt colon by simp
      show "CHR ''['' \<notin> set [t, t', p, CHR '':'', CHR ''/'', CHR ''/'']"
        using nt by simp
      show "urlAt (h # [t, t', p, CHR '':'', CHR ''/'', CHR ''/''] @ g' # ys)" if "urlChar g'" for g' ys
        using that c by simp
      show "canonicalize h = CHR ''H''" by (rule c(1))
      show "urlChar g" by (rule g)
    qed
  qed
qed

text \<open>A step that keeps the whitespace-free pieces of its output keeps it free of URLs.\<close>

lemma url_preserved:
  assumes keep: "\<And>a w. \<not> isSpace a \<Longrightarrow> \<forall>c \<in> set w. \<not> isSpace c \<Longrightarrow>
                        sublist (a # w) t \<Longrightarrow> sublist (a # w) s"
    and "test urlPattern t"
  shows "test urlPattern s"
proof -
  from assms(2) obtain ys where ys: "suffix ys t" "urlAt ys"
    by (auto simp: test_url_iff)
  from ys(2) show ?thesis
  proof (rule urlAt_window)
    fix a v g zs
    assume w: "ys = a # v @ g # zs" "canonicalize a = CHR ''H''"
      "\<forall>c \<in> set v. \<not> isSpace c" "urlChar g"
      "\<And>g' ys. urlChar g' \<Longrightarrow> urlAt (a # v @ g' # ys)"
    have "sublist (a # (v @ [g])) t"
    proof -
      obtain pre where "t = pre @ ys" using ys(1) by (auto simp: suffix_def)
      then have "t = pre @ (a # (v @ [g])) @ zs" by (simp add: w(1))
      then show ?thesis unfolding sublist_def by blast
    qed
    moreover have "\<not> isSpace a" using w(2) canon_letter(1) by blast
    moreover have "\<forall>c \<in> set (v @ [g]). \<not> isSpace c" using w(3,4) urlChar_space by auto
    ultimately have "sublist (a # (v @ [g])) s" by (intro keep)
    then obtain pre post where "s = pre @ (a # (v @ [g])) @ post"
      unfolding sublist_def by blast
    then have "suffix (a # v @ g # post) s" by (simp add: suffix_def)
    moreover have "urlAt (a # v @ g # post)" using w(4,5) by blast
    ultimately show ?thesis by (auto simp: test_url_iff)
  qed
qed

subsection \<open>No URL after the replacement\<close>

lemma url_consuming:
  assumes "e \<in> set (ends urlPattern (p, xs))"
  shows "length (snd e) < length xs"
proof -
  from assms obtain m where m: "m \<in> set (ends (liti ''http'') (p, xs))"
    and e: "e \<in> set (ends (Seq (ci CHR ''s'') urlColon) m) \<or> e \<in> set (ends urlColon m)"
    unfolding urlPattern_unfold by auto
  from e have em: "length (snd e) \<le> length (snd m)"
    using ends_suffix suffix_length_le by blast
  have "length (snd m) < length xs"
  proof (cases xs)
    case Nil
    then show ?thesis using m by (simp add: liti_def seqs_def ci_def)
  next
    case (Cons x xs')
    have "liti ''http'' = Seq (ci CHR ''h'') (liti ''ttp'')" by (simp add: liti_def seqs_def)
    then have "m \<in> set (ends (liti ''ttp'') (Some x, xs'))"
      using m Cons by (auto simp: ci_def split: if_splits)
    then have "suffix (snd m) xs'" using ends_suffix by fastforce
    then show ?thesis using Cons by (auto dest: suffix_length_le)
  qed
  then show ?thesis using em by simp
qed

lemma url_cases [case_names stop keep hit]:
  obtains (stop) "xs = []" "replaceFrom urlPattern new (p, xs) = []"
  | (keep) c cs where "xs = c # cs" "\<not> urlAt xs"
      "replaceFrom urlPattern new (p, xs) = c # replaceFrom urlPattern new (Some c, cs)"
  | (hit) e where "urlAt xs" "length (snd e) < length xs"
      "replaceFrom urlPattern new (p, xs) = new @ replaceFrom urlPattern new e"
proof (cases "urlAt xs")
  case False
  then have e: "ends urlPattern (p, xs) = []" using url_match_iff [of p xs] by simp
  show ?thesis
  proof (cases xs)
    case Nil
    have "replaceFrom urlPattern new (p, xs) = []"
      using e Nil by (subst replaceFrom_step) simp
    then show ?thesis using Nil by (rule stop [rotated])
  next
    case (Cons c cs)
    have "replaceFrom urlPattern new (p, xs) = c # replaceFrom urlPattern new (Some c, cs)"
      using e Cons by (subst replaceFrom_step) simp
    then show ?thesis using Cons False by (intro keep [of c cs])
  qed
next
  case True
  then obtain e es where e: "ends urlPattern (p, xs) = e # es"
    using url_match_iff [of p xs] by (cases "ends urlPattern (p, xs)") auto
  then have l: "length (snd e) < length xs" using url_consuming [of e p xs] by simp
  have "replaceFrom urlPattern new (p, xs) = new @ replaceFrom urlPattern new e"
    using e l by (subst replaceFrom_step) simp
  then show ?thesis using True l by (intro hit [of e])
qed

lemma urlAt_hd: "urlAt (c # cs) \<Longrightarrow> canonicalize c = CHR ''H''"
  by (erule urlAt_shape) simp

lemma url_prefix:
  "prefix (v @ [g]) (replaceFrom urlPattern ''[link]'' (p, xs)) \<Longrightarrow> CHR ''['' \<notin> set v \<Longrightarrow>
   \<exists>g'. prefix (v @ [g']) xs \<and> (g' = g \<or> canonicalize g' = CHR ''H'')"
proof (induction v arbitrary: p xs)
  case Nil
  show ?case
  proof (cases rule: url_cases [of xs "''[link]''" p])
    case stop
    then show ?thesis using Nil by simp
  next
    case (keep c cs)
    then show ?thesis using Nil by auto
  next
    case (hit e)
    then obtain a cs where "xs = a # cs" by (cases xs) auto
    then show ?thesis using hit(1) urlAt_hd by auto
  qed
next
  case (Cons d v)
  show ?case
  proof (cases rule: url_cases [of xs "''[link]''" p])
    case stop
    then show ?thesis using Cons.prems by simp
  next
    case (keep c cs)
    then have "prefix (v @ [g]) (replaceFrom urlPattern ''[link]'' (Some c, cs))" and d: "d = c"
      using Cons.prems(1) by auto
    then obtain g' where "prefix (v @ [g']) cs" "g' = g \<or> canonicalize g' = CHR ''H''"
      using Cons.IH Cons.prems(2) by auto
    then show ?thesis using keep(1) d by auto
  next
    case (hit e)
    then show ?thesis using Cons.prems by auto
  qed
qed

lemma url_replaced:
  "suffix ys (replaceFrom urlPattern ''[link]'' (p, xs)) \<Longrightarrow> \<not> urlAt ys"
proof (induction xs arbitrary: p ys rule: length_induct)
  case (1 xs)
  show ?case
  proof (cases rule: url_cases [of xs "''[link]''" p])
    case stop
    then show ?thesis using "1.prems" by simp
  next
    case (keep c cs)
    let ?out = "replaceFrom urlPattern ''[link]'' (Some c, cs)"
    from "1.prems" keep(3) consider "ys = c # ?out" | "suffix ys ?out"
      by (auto simp: suffix_Cons)
    then show ?thesis
    proof cases
      case 1
      show ?thesis
      proof
        assume "urlAt ys"
        then show False
        proof (rule urlAt_window)
          fix a v g zs
          assume w: "ys = a # v @ g # zs" "CHR ''['' \<notin> set v" "urlChar g"
            "\<And>g' ys. urlChar g' \<Longrightarrow> urlAt (a # v @ g' # ys)"
          then have a: "a = c" and "prefix (v @ [g]) ?out"
            using 1 by (auto simp: prefix_def)
          then obtain g' where g': "prefix (v @ [g']) cs" "g' = g \<or> canonicalize g' = CHR ''H''"
            using url_prefix w(2) by blast
          then have "urlChar g'" using w(3) urlChar_H by auto
          moreover obtain rest where "cs = v @ g' # rest" using g'(1) by (auto simp: prefix_def)
          ultimately have "urlAt xs" using w(4) keep(1) a by simp
          then show False using keep(2) by simp
        qed
      qed
    next
      case 2
      then show ?thesis using "1.IH" keep(1) by auto
    qed
  next
    case (hit e)
    have IH: "suffix ys (replaceFrom urlPattern ''[link]'' e) \<Longrightarrow> \<not> urlAt ys"
      using "1.IH" hit(2) by (cases e) auto
    have no: "\<not> urlAt (c # cs)" if "c \<in> set ''[link]''" for c cs
      using that urlAt_hd [of c cs] by (auto simp: canonicalize_def)
    from "1.prems" hit(3) show ?thesis
      using IH no by (auto simp: suffix_Cons)
  qed
qed

lemma url_removed: "\<not> test urlPattern (replaceAll urlPattern ''[link]'' s)"
  using url_replaced [of _ None s] by (auto simp: test_url_iff replaceAll_From)

subsection \<open>What the cleaned text is free of\<close>

lemma blanks2_run: "blanks2 = orMore 2 (Atom (\<lambda>c. c = CHR '' '' \<or> c = CHR 0x09))"
  by (simp add: blanks2_def)

lemma newlines_keep:
  assumes "\<forall>c \<in> set w. c \<noteq> nl" "sublist (a # w) (replaceAll newlines3 [nl, nl] s)"
  shows "sublist (a # w) s"
  using run_sublist [of 3 "[nl, nl]" "\<lambda>c. c = nl" a w None s] assms
  by (simp add: newlines3_run replaceAll_From)

lemma blanks_keep:
  assumes "a \<noteq> CHR '' ''" "a \<noteq> CHR 0x09" "\<forall>c \<in> set w. c \<noteq> CHR '' '' \<and> c \<noteq> CHR 0x09"
    "sublist (a # w) (replaceAll blanks2 '' '' s)"
  shows "sublist (a # w) s"
  using run_sublist [of 2 "'' ''" "\<lambda>c. c = CHR '' '' \<or> c = CHR 0x09" a w None s] assms
  by (simp add: blanks2_run replaceAll_From)

lemma trim_keep: "sublist w (trim s) \<Longrightarrow> sublist w s"
  using sublist_trim [of s] by (rule sublist_order.order_trans [rotated])

lemma space_chars:
  "\<not> isSpace c \<Longrightarrow> c \<noteq> nl \<and> c \<noteq> CHR '' '' \<and> c \<noteq> CHR 0x09"
  "isLineTerminator c \<Longrightarrow> c \<noteq> CHR '' '' \<and> c \<noteq> CHR 0x09"
  by (auto simp: isSpace_def isLineTerminator_def)

text \<open>The steps after the URL replacement keep what is free of whitespace.\<close>

lemma later_steps_keep:
  assumes a: "\<not> isSpace a \<or> isLineTerminator a" and w: "\<forall>c \<in> set w. \<not> isSpace c"
    and s: "sublist (a # w)
       (trim (replaceAll blanks2 '' '' (replaceAll newlines3 [nl, nl]
          (replaceAll wrotePattern [] (replaceAll quotedPattern []
             (foldl (\<lambda>c pattern. replaceAll pattern [] c) t footerPatterns))))))"
  shows "sublist (a # w) t"
proof -
  let ?s2 = "foldl (\<lambda>c pattern. replaceAll pattern [] c) t footerPatterns"
  let ?s3 = "replaceAll quotedPattern [] ?s2"
  let ?s4 = "replaceAll wrotePattern [] ?s3"
  let ?s5 = "replaceAll newlines3 [nl, nl] ?s4"
  let ?s6 = "replaceAll blanks2 '' '' ?s5"
  have w': "\<forall>c \<in> set w. c \<noteq> nl" "\<forall>c \<in> set w. c \<noteq> CHR '' '' \<and> c \<noteq> CHR 0x09"
    using w by (auto dest: space_chars(1))
  have a': "a \<noteq> CHR '' ''" "a \<noteq> CHR 0x09"
    using a by (auto dest: space_chars)
  have eol: "\<forall>r \<in> set footerPatterns. eolEnding r"
    using footerPatterns_eol by simp
  from s have "sublist (a # w) ?s6" by (rule trim_keep)
  then have "sublist (a # w) ?s5" using a' w'(2) by (rule blanks_keep [rotated 3])
  then have "sublist (a # w) ?s4" using w'(1) by (rule newlines_keep [rotated])
  then have "sublist (a # w) ?s3"
    using removal_sublist [OF wrotePattern_eol w, of a None ?s3] by (simp add: replaceAll_From)
  then have "sublist (a # w) ?s2"
    using removal_sublist [OF quotedPattern_eol w, of a None ?s2] by (simp add: replaceAll_From)
  then show ?thesis by (rule removals_sublist [OF eol w])
qed

lemma quote_sign: "\<forall>c \<in> set ''>''. \<not> isSpace c"
  by (simp add: isSpace_def)

subsection \<open>Tests for one of a list of words\<close>

lemma liti_Cons: "liti (c # w) = Seq (ci c) (liti w)"
  by (simp add: liti_def seqs_def)

lemma ends_liti:
  "ends (liti w) (p, xs) \<noteq> [] \<longleftrightarrow> map canonicalize (take (length w) xs) = map canonicalize w"
proof (induction w arbitrary: p xs)
  case Nil
  show ?case by (simp add: liti_def seqs_def)
next
  case (Cons c w)
  show ?case
  proof (cases xs)
    case Nil
    then show ?thesis by (simp add: liti_Cons ci_def)
  next
    case (Cons x xs')
    then show ?thesis using Cons.IH [of "Some x" xs'] by (simp add: liti_Cons ci_def)
  qed
qed

lemma ends_alts: "ends (alts rs) st \<noteq> [] \<longleftrightarrow> (\<exists>r \<in> set rs. ends r st \<noteq> [])"
proof (induction rs rule: alts.induct)
  case 1
  show ?case by (cases st; cases "snd st") auto
qed auto

lemma ends_words:
  "ends (words ws) (p, xs) \<noteq> [] \<longleftrightarrow>
     (\<exists>w \<in> set ws. map canonicalize (take (length w) xs) = map canonicalize w)"
  by (simp add: words_def ends_alts ends_liti)

text \<open>A test for a list of words holds exactly when one of the words occurs in the text.\<close>

lemma suffix_iff_drop: "(\<exists>ys. suffix ys s \<and> Q ys) \<longleftrightarrow> (\<exists>i \<le> length s. Q (drop i s))"
proof
  assume "\<exists>ys. suffix ys s \<and> Q ys"
  then obtain ys zs where s: "s = zs @ ys" and q: "Q ys" by (auto simp: suffix_def)
  have "length zs \<le> length s \<and> Q (drop (length zs) s)" using q by (simp add: s)
  then show "\<exists>i \<le> length s. Q (drop i s)" by (rule exI)
next
  assume "\<exists>i \<le> length s. Q (drop i s)"
  then obtain i where "Q (drop i s)" by (elim exE conjE)
  moreover have "suffix (drop i s) s" by (rule suffix_drop)
  ultimately have "suffix (drop i s) s \<and> Q (drop i s)" by simp
  then show "\<exists>ys. suffix ys s \<and> Q ys" by (rule exI)
qed

lemma test_words: "test (words ws) s \<longleftrightarrow> (\<exists>w \<in> set ws. occursIn w s)"
proof -
  let ?A = "\<lambda>ys. \<exists>w \<in> set ws. map canonicalize (take (length w) ys) = map canonicalize w"
  have "test (words ws) s \<longleftrightarrow> (\<exists>ys. suffix ys s \<and> ?A ys)"
    unfolding test_def by (rule search_iff) (rule ends_words)
  also have "\<dots> \<longleftrightarrow> (\<exists>i \<le> length s. ?A (drop i s))"
    by (rule suffix_iff_drop)
  also have "\<dots> \<longleftrightarrow> (\<exists>w \<in> set ws. occursIn w s)"
    unfolding occursIn_def by blast
  finally show ?thesis .
qed

section \<open>The email processor: proofs\<close>

lemma classifyCombined_cases:
  "classifyCombined c \<in> set categories"
  by (simp add: classifyCombined_def categories_def)

text \<open>
  Claim C2, amended. \<open>classifyEmail\<close> returns one of the eight categories for every input.
  The rules are applied to the lower-cased sender, subject and body joined by single
  spaces (not to their plain concatenation), the first rule that matches decides, and a
  text that matches no rule is \<open>personal\<close>; so are absent and empty inputs.
\<close>

theorem classifyEmail_first_match:
  "classifyEmail hs b \<in> set categories
   \<and> classifyEmail hs b =
       classifyCombined (toLowerCase (orElse (h_from hs) []) @ '' '' @
                         toLowerCase (orElse (h_subject hs) []) @ '' '' @
                         toLowerCase (orElse b []))
   \<and> (test promoWords c \<and> test priceWords c \<longrightarrow> classifyCombined c = ''promotional'')
   \<and> (test promoWords c \<and> \<not> test priceWords c \<longrightarrow> classifyCombined c = ''newsletter'')
   \<and> (\<not> test promoWords c \<and> test securityWords c \<longrightarrow> classifyCombined c = ''security'')
   \<and> (\<not> test promoWords c \<and> \<not> test securityWords c \<and> test billingWords c \<longrightarrow>
         classifyCombined c = ''transactional'')
   \<and> (\<not> test promoWords c \<and> \<not> test securityWords c \<and> \<not> test billingWords c \<and> test eventWords c \<longrightarrow>
         classifyCombined c = ''event'')
   \<and> (\<not> test promoWords c \<and> \<not> test securityWords c \<and> \<not> test billingWords c \<and> \<not> test eventWords c
        \<and> test noticeWords c \<longrightarrow> classifyCombined c = ''notification'')
   \<and> (\<not> test promoWords c \<and> \<not> test securityWords c \<and> \<not> test billingWords c \<and> \<not> test eventWords c
        \<and> \<not> test noticeWords c \<and> test devWords c \<longrightarrow> classifyCombined c = ''development'')
   \<and> (\<not> test promoWords c \<and> \<not> test securityWords c \<and> \<not> test billingWords c \<and> \<not> test eventWords c
        \<and> \<not> test noticeWords c \<and> \<not> test devWords c \<longrightarrow> classifyCombined c = ''personal'')
   \<and> classifyEmail \<lparr>h_from = None, h_to = None, h_subject = None, h_date = None\<rparr> None = ''personal''
   \<and> classifyEmail \<lparr>h_from = Some [], h_to = Some [], h_subject = Some [], h_date = Some []\<rparr> (Some [])
        = ''personal''"
proof -
  have e: "classifyEmail hs b =
       classifyCombined (toLowerCase (orElse (h_from hs) []) @ '' '' @
                         toLowerCase (orElse (h_subject hs) []) @ '' '' @
                         toLowerCase (orElse b []))"
    by (simp add: classifyEmail_def Let_def)
  have m: "classifyEmail hs b \<in> set categories"
    unfolding e by (rule classifyCombined_cases)
  have p: "classifyCombined ''  '' = ''personal''" by code_simp
  have n: "classifyEmail \<lparr>h_from = None, h_to = None, h_subject = None, h_date = None\<rparr> None = ''personal''"
    by (simp add: classifyEmail_def Let_def orElse_def toLowerCase_def p)
  have n': "classifyEmail \<lparr>h_from = Some [], h_to = Some [], h_subject = Some [], h_date = Some []\<rparr> (Some [])
        = ''personal''"
    by (simp add: classifyEmail_def Let_def orElse_def toLowerCase_def p)
  show ?thesis
    using e m n n' by (simp add: classifyCombined_def)
qed

theorem classifyEmail_first_match_witness:
  "classifyCombined ''shop sale 5%'' = ''promotional''
   \<and> classifyCombined ''news promo hi'' = ''newsletter''
   \<and> classifyCombined ''it login now'' = ''security''
   \<and> classifyCombined ''shop order 7'' = ''transactional''
   \<and> classifyCombined ''bob rsvp yes'' = ''event''
   \<and> classifyCombined ''bot notice x'' = ''notification''
   \<and> classifyCombined ''ci merge ok'' = ''development''
   \<and> classifyCombined ''bob lunch ?'' = ''personal''"
proof -
  have 1: "test promoWords ''shop sale 5%''
           \<and> test priceWords ''shop sale 5%''" by code_simp
  have 2: "test promoWords ''news promo hi''
           \<and> \<not> test priceWords ''news promo hi''" by code_simp
  have 3: "\<not> test promoWords ''it login now''
           \<and> test securityWords ''it login now''" by code_simp
  have 4: "\<not> test promoWords ''shop order 7''
           \<and> \<not> test securityWords ''shop order 7''
           \<and> test billingWords ''shop order 7''" by code_simp
  have 5: "\<not> test promoWords ''bob rsvp yes''
           \<and> \<not> test securityWords ''bob rsvp yes''
           \<and> \<not> test billingWords ''bob rsvp yes''
           \<and> test eventWords ''bob rsvp yes''"
    by code_simp
  have 6: "\<not> test promoWords ''bot notice x''
           \<and> \<not> test securityWords ''bot notice x''
           \<and> \<not> test billingWords ''bot notice x''
           \<and> \<not> test eventWords ''bot notice x''
           \<and> test noticeWords ''bot notice x''" by code_simp
  have 7: "\<not> test promoWords ''ci merge ok''
           \<and> \<not> test securityWords ''ci merge ok''
           \<and> \<not> test billingWords ''ci merge ok''
           \<and> \<not> test eventWords ''ci merge ok''
           \<and> \<not> test noticeWords ''ci merge ok''
           \<and> test devWords ''ci merge ok''" by code_simp
  have 8: "\<not> test promoWords ''bob lunch ?''
           \<and> \<not> test securityWords ''bob lunch ?''
           \<and> \<not> test billingWords ''bob lunch ?''
           \<and> \<not> test eventWords ''bob lunch ?''
           \<and> \<not> test noticeWords ''bob lunch ?''
           \<and> \<not> test devWords ''bob lunch ?''" by code_simp
  note T = classifyEmail_first_match
  from 1 T [of _ _ "''shop sale 5%''"]
  have a: "classifyCombined ''shop sale 5%'' = ''promotional''" by blast
  from 2 T [of _ _ "''news promo hi''"]
  have b: "classifyCombined ''news promo hi'' = ''newsletter''" by blast
  from 3 T [of _ _ "''it login now''"]
  have c: "classifyCombined ''it login now'' = ''security''" by blast
  from 4 T [of _ _ "''shop order 7''"]
  have d: "classifyCombined ''shop order 7'' = ''transactional''" by blast
  from 5 T [of _ _ "''bob rsvp yes''"]
  have e: "classifyCombined ''bob rsvp yes'' = ''event''"
    by blast
  from 6 T [of _ _ "''bot notice x''"]
  have f: "classifyCombined ''bot notice x'' = ''notification''" by blast
  from 7 T [of _ _ "''ci merge ok''"]
  have g: "classifyCombined ''ci merge ok'' = ''development''" by blast
  from 8 T [of _ _ "''bob lunch ?''"]
  have h: "classifyCombined ''bob lunch ?'' = ''personal''" by blast
  from a b c d e f g h show ?thesis by blast
qed

text \<open>
  The claim as stated fails where a word of a rule spans two fields: with the sender
  \<open>pull\<close> and the subject \<open>request\<close> the program answers \<open>development\<close>, since the combined
  text is \<open>pull request\<close> followed by a space, while the rules on the plain concatenation
  \<open>pullrequest\<close> give \<open>personal\<close>.
\<close>

theorem classifyEmail_concatenation_counterexample:
  "classifyEmail \<lparr>h_from = Some ''pull'', h_to = None, h_subject = Some ''request'', h_date = None\<rparr> None
     = ''development''
   \<and> classifyCombined (toLowerCase (''pull'' @ ''request'' @ [])) = ''personal''"
  by code_simp

lemma length_cap400: "length (cap400 t) \<le> 400"
  by (simp add: cap400_def)

lemma buildDigest_summary:
  "summary (buildDigest e) =
     cap400 (summaryPolicy (info_keyPhrases (extractKeyInfo (cleanedBodyOf e))) (cleanedBodyOf e) (snippet e))"
  by (simp add: buildDigest_def Let_def cap400_def summaryPolicy_def cleanedBodyOf_def
      substring0_def orElse_def split: option.splits)

lemma buildDigest_keyPoints:
  "keyPoints (buildDigest e) = info_keyPhrases (extractKeyInfo (cleanedBodyOf e))"
  by (simp add: buildDigest_def Let_def cleanedBodyOf_def)

text \<open>
  Claim C3. The summary of every digest has at most 400 characters: a selected summary
  that is longer is cut to its first 397 characters followed by \<open>...\<close>, a shorter one is
  kept. \<open>actionRequired\<close> holds exactly when \<open>actionItems\<close> is not empty.
\<close>

theorem buildDigest_summary_cap:
  "length (summary (buildDigest e)) \<le> 400
   \<and> (actionRequired (buildDigest e) \<longleftrightarrow> actionItems (buildDigest e) \<noteq> [])
   \<and> (let t = summaryPolicy (keyPoints (buildDigest e)) (cleanedBodyOf e) (snippet e)
      in (length t > 400 \<longrightarrow> summary (buildDigest e) = take 397 t @ ''...'')
         \<and> (length t \<le> 400 \<longrightarrow> summary (buildDigest e) = t))"
proof -
  have a: "length (summary (buildDigest e)) \<le> 400"
    by (simp add: buildDigest_summary length_cap400)
  have b: "actionRequired (buildDigest e) \<longleftrightarrow> actionItems (buildDigest e) \<noteq> []"
    by (simp add: buildDigest_def Let_def)
  have c: "let t = summaryPolicy (keyPoints (buildDigest e)) (cleanedBodyOf e) (snippet e)
      in (length t > 400 \<longrightarrow> summary (buildDigest e) = take 397 t @ ''...'')
         \<and> (length t \<le> 400 \<longrightarrow> summary (buildDigest e) = t)"
    by (simp add: buildDigest_summary buildDigest_keyPoints cap400_def Let_def)
  from a b c show ?thesis by blast
qed


theorem buildDigest_summary_cap_witness:
  "(let e = \<lparr>headers = \<lparr>h_from = Some ''bob'', h_to = None, h_subject = Some ''hi'', h_date = None\<rparr>,
             body = Some '' '', snippet = Some (replicate 401 CHR ''x'')\<rparr>
    in length (summaryPolicy (keyPoints (buildDigest e)) (cleanedBodyOf e) (snippet e)) > 400
       \<and> summary (buildDigest e) = replicate 397 CHR ''x'' @ ''...''
       \<and> length (summary (buildDigest e)) = 400)
   \<and> (let e = \<lparr>headers = \<lparr>h_from = Some ''bob'', h_to = None, h_subject = Some ''hi'', h_date = None\<rparr>,
             body = Some '' '', snippet = Some ''short''\<rparr>
    in length (summaryPolicy (keyPoints (buildDigest e)) (cleanedBodyOf e) (snippet e)) \<le> 400
       \<and> summary (buildDigest e) = ''short'')"
proof -
  let ?h = "\<lparr>h_from = Some ''bob'', h_to = None, h_subject = Some ''hi'', h_date = None\<rparr>"
  let ?e = "\<lparr>headers = ?h, body = Some '' '', snippet = Some (replicate 401 CHR ''x'')\<rparr>"
  let ?f = "\<lparr>headers = ?h, body = Some '' '', snippet = Some ''short''\<rparr>"
  have c: "cleanEmailBody (Some '' '') = []" by code_simp
  have ce: "cleanedBodyOf ?e = []" and cf: "cleanedBodyOf ?f = []"
    by (simp_all add: cleanedBodyOf_def orElse_def c)
  have ke: "keyPoints (buildDigest ?e) = []" and kf: "keyPoints (buildDigest ?f) = []"
    by (simp_all add: buildDigest_keyPoints ce cf extractKeyInfo_def)
  have pe: "summaryPolicy (keyPoints (buildDigest ?e)) (cleanedBodyOf ?e) (snippet ?e) = replicate 401 CHR ''x''"
    by (simp add: ke ce summaryPolicy_def)
  have pf: "summaryPolicy (keyPoints (buildDigest ?f)) (cleanedBodyOf ?f) (snippet ?f) = ''short''"
    by (simp add: kf cf summaryPolicy_def)
  have he: "length (summaryPolicy (keyPoints (buildDigest ?e)) (cleanedBodyOf ?e) (snippet ?e)) > 400"
    unfolding pe by simp
  have hf: "length (summaryPolicy (keyPoints (buildDigest ?f)) (cleanedBodyOf ?f) (snippet ?f)) \<le> 400"
    unfolding pf by simp
  have se: "summary (buildDigest ?e) = take 397 (replicate 401 CHR ''x'') @ ''...''"
    using buildDigest_summary_cap [of ?e] he unfolding Let_def pe by blast
  have sf: "summary (buildDigest ?f) = ''short''"
    using buildDigest_summary_cap [of ?f] hf unfolding Let_def pf by blast
  show ?thesis
    unfolding Let_def using he hf se sf by simp
qed

text \<open>
  With a body that is present and not empty, the program's summary is the one the
  specification words.
\<close>

lemma buildDigest_summary_body:
  assumes "body e = Some b" and "b \<noteq> []"
  shows "summary (buildDigest e) = specSummary e"
  using assms
  by (simp add: buildDigest_summary specSummary_def cleanedBodyOf_def orElse_def)

text \<open>
  Claim C7. \<open>buildDigest\<close> selects the summary in this order: the key phrases joined with
  \<open>". "\<close> when there are key phrases; else the first 300 characters of the cleaned text when
  it is not empty; else the snippet as it is when the message has one; else
  \<open>No readable content\<close>. The cap at 400 characters is applied to the selected text, whichever
  branch gave it. The cleaned text is what \<open>cleanEmailBody\<close> makes of
  \<open>body || snippet || ''\<close>, that is of the body, or of the snippet when the body is absent or
  empty, and the key points of the digest are the key phrases extracted from it.
\<close>

theorem buildDigest_summary_policy:
  "summary (buildDigest e) =
     cap400 (summaryPolicy (keyPoints (buildDigest e)) (cleanedBodyOf e) (snippet e))
   \<and> keyPoints (buildDigest e) = info_keyPhrases (extractKeyInfo (cleanedBodyOf e))"
  by (simp add: buildDigest_summary buildDigest_keyPoints)

theorem buildDigest_summary_policy_witness:
  "summary (buildDigest \<lparr>headers = \<lparr>h_from = None, h_to = None, h_subject = None, h_date = None\<rparr>,
                          body = Some ''The report is ready for you. Thanks'', snippet = Some ''The report''\<rparr>)
     = ''The report is ready for you''
   \<and> summary (buildDigest \<lparr>headers = \<lparr>h_from = None, h_to = None, h_subject = None, h_date = None\<rparr>,
                          body = Some ''See  you'', snippet = Some ''See''\<rparr>)
     = ''See you''
   \<and> summary (buildDigest \<lparr>headers = \<lparr>h_from = None, h_to = None, h_subject = None, h_date = None\<rparr>,
                          body = Some '' '', snippet = Some ''Hi''\<rparr>)
     = ''Hi''
   \<and> summary (buildDigest \<lparr>headers = \<lparr>h_from = None, h_to = None, h_subject = None, h_date = None\<rparr>,
                          body = None, snippet = None\<rparr>)
     = ''No readable content''"
proof -
  let ?h = "\<lparr>h_from = None, h_to = None, h_subject = None, h_date = None\<rparr>"
  let ?a = "\<lparr>headers = ?h, body = Some ''The report is ready for you. Thanks'', snippet = Some ''The report''\<rparr>"
  let ?b = "\<lparr>headers = ?h, body = Some ''See  you'', snippet = Some ''See''\<rparr>"
  let ?c = "\<lparr>headers = ?h, body = Some '' '', snippet = Some ''Hi''\<rparr>"
  let ?d = "\<lparr>headers = ?h, body = None, snippet = None\<rparr>"
  have a: "cap400 (summaryPolicy (info_keyPhrases (extractKeyInfo (cleanedBodyOf ?a))) (cleanedBodyOf ?a) (snippet ?a))
             = ''The report is ready for you''" by code_simp
  have b: "cap400 (summaryPolicy (info_keyPhrases (extractKeyInfo (cleanedBodyOf ?b))) (cleanedBodyOf ?b) (snippet ?b))
             = ''See you''" by code_simp
  have c: "cap400 (summaryPolicy (info_keyPhrases (extractKeyInfo (cleanedBodyOf ?c))) (cleanedBodyOf ?c) (snippet ?c))
             = ''Hi''" by code_simp
  have d: "cap400 (summaryPolicy (info_keyPhrases (extractKeyInfo (cleanedBodyOf ?d))) (cleanedBodyOf ?d) (snippet ?d))
             = ''No readable content''" by code_simp
  from buildDigest_summary_policy [of ?a] buildDigest_summary_policy [of ?b]
       buildDigest_summary_policy [of ?c] buildDigest_summary_policy [of ?d] a b c d
  show ?thesis by metis
qed

text \<open>
  The claim as stated, with the cleaned body of the message, fails on a message without a
  body: the program cleans the snippet in its place, so the snippet \<open>Call me  now\<close> gives
  the summary \<open>Call me now\<close> by the second branch, where the stated order gives the snippet
  as it is by the third; the same with an empty body.
\<close>

theorem buildDigest_summary_snippet_counterexample:
  "summary (buildDigest \<lparr>headers = \<lparr>h_from = None, h_to = None, h_subject = None, h_date = None\<rparr>,
                        body = None, snippet = Some ''Call me  now''\<rparr>)
     = ''Call me now''
   \<and> specSummary \<lparr>headers = \<lparr>h_from = None, h_to = None, h_subject = None, h_date = None\<rparr>,
                    body = None, snippet = Some ''Call me  now''\<rparr>
     = ''Call me  now''
   \<and> summary (buildDigest \<lparr>headers = \<lparr>h_from = None, h_to = None, h_subject = None, h_date = None\<rparr>,
                          body = Some [], snippet = Some ''a  b''\<rparr>)
     = ''a b''
   \<and> specSummary \<lparr>headers = \<lparr>h_from = None, h_to = None, h_subject = None, h_date = None\<rparr>,
                    body = Some [], snippet = Some ''a  b''\<rparr>
     = ''a  b''"
  by code_simp

lemma foldl_append_concat: "foldl (\<lambda>acc p. acc @ g p) a ps = a @ concat (map g ps)"
  by (induction ps arbitrary: a) auto

lemma dateMatches_concat:
  "dateMatches b = concat (map (\<lambda>p. map trim (matchAll p b)) datePatterns)"
  by (simp add: dateMatches_def foldl_append_concat)

lemma newSet_snoc: "newSet (xs @ [x]) = setAdd (newSet xs) x"
  by (simp add: newSet_def)

lemma newSet_filter: "newSet (filter P xs) = filter P (newSet xs)"
proof (induction xs rule: rev_induct)
  case Nil
  show ?case by (simp add: newSet_def)
next
  case (snoc x xs)
  show ?case
  proof (cases "P x")
    case True
    have "newSet (filter P (xs @ [x])) = setAdd (filter P (newSet xs)) x"
      using True snoc by (simp add: newSet_snoc)
    also have "\<dots> = filter P (setAdd (newSet xs) x)"
      using True by (simp add: setAdd_def)
    finally show ?thesis by (simp add: newSet_snoc)
  next
    case False
    then show ?thesis using snoc by (simp add: newSet_snoc setAdd_def)
  qed
qed

lemma newSet_concat: "newSet (concat fs) = familyMajor fs"
proof (induction fs)
  case Nil
  show ?case by (simp add: newSet_def)
next
  case (Cons f fs)
  then show ?case by (simp add: newSet_append newSet_filter)
qed

lemma info_dates_extract:
  "info_dates (extractKeyInfo b) = (if b = [] then [] else extractDates b)"
  by (simp add: extractKeyInfo_def Let_def)

text \<open>
  Claim C6, amended. The dates that \<open>extractKeyInfo\<close> returns are at most five and pairwise
  different. They are ordered family by family, in the fixed order of the five date
  patterns: first the distinct matches of the first pattern in the order of the scan, then
  the matches of the second pattern that the first did not give, and so on; the first five
  of this list are kept. The order is not that of the positions in the text.
\<close>

theorem extractKeyInfo_dates_by_family:
  "length (info_dates (extractKeyInfo b)) \<le> 5
   \<and> distinct (info_dates (extractKeyInfo b))
   \<and> info_dates (extractKeyInfo []) = []
   \<and> (b \<noteq> [] \<longrightarrow>
        info_dates (extractKeyInfo b) =
          take 5 (familyMajor (map (\<lambda>p. map trim (matchAll p b)) datePatterns)))"
proof -
  have a: "length (info_dates (extractKeyInfo b)) \<le> 5"
    by (simp add: info_dates_extract extractDates_def)
  have d: "distinct (info_dates (extractKeyInfo b))"
    by (simp add: info_dates_extract extractDates_def newSet_distinct distinct_take)
  have e: "info_dates (extractKeyInfo []) = []"
    by (simp add: info_dates_extract)
  have f: "b \<noteq> [] \<longrightarrow>
        info_dates (extractKeyInfo b) =
          take 5 (familyMajor (map (\<lambda>p. map trim (matchAll p b)) datePatterns))"
    by (simp add: info_dates_extract extractDates_def dateMatches_concat newSet_concat)
  from a d e f show ?thesis by blast
qed

theorem extractKeyInfo_dates_by_family_witness:
  "''see you friday, not today'' \<noteq> []
   \<and> info_dates (extractKeyInfo ''see you friday, not today'') = [''friday'', ''today'']
   \<and> map (\<lambda>p. map trim (matchAll p ''see you friday, not today'')) datePatterns
        = [[], [], [], [''friday''], [''today'']]"
proof -
  have h: "''see you friday, not today'' \<noteq> []" by simp
  have m: "map (\<lambda>p. map trim (matchAll p ''see you friday, not today'')) datePatterns
        = [[], [], [], [''friday''], [''today'']]" by code_simp
  have t: "take 5 (familyMajor [[], [], [], [''friday''], [''today'']]) = [''friday'', ''today'']"
    by code_simp
  from extractKeyInfo_dates_by_family [of "''see you friday, not today''"] h m t
  show ?thesis by simp
qed

text \<open>
  The claim as stated fails on \<open>today monday\<close>: \<open>today\<close> stands first in the text, at index
  0, and \<open>monday\<close> at index 6, but the weekday pattern comes before the pattern of the
  relative terms, so \<open>monday\<close> is the first date.
\<close>

theorem extractKeyInfo_dates_order_counterexample:
  "info_dates (extractKeyInfo ''today monday'') = [''monday'', ''today'']
   \<and> indexOf ''today'' ''today monday'' = Some 0
   \<and> indexOf ''monday'' ''today monday'' = Some 6"
proof -
  have a: "extractDates ''today monday'' = [''monday'', ''today'']" by code_simp
  have b: "indexOf ''today'' ''today monday'' = Some 0" by simp
  have c: "indexOf ''monday'' ''today monday'' = Some 6" by simp
  from a b c show ?thesis by (simp add: info_dates_extract)
qed

text \<open>
  Claim C8. \<open>cleanEmailBody\<close> removes the lines that start with \<open>>\<close> before it trims the
  text. A first line on which blanks stand before the \<open>>\<close> is not removed, and the final
  \<open>trim\<close> takes the blanks away: the output then starts with \<open>>\<close>.
\<close>

theorem cleanEmailBody_leading_quote:
  "cleanEmailBody (Some '' > quoted reply'') = ''> quoted reply''
   \<and> test (seqs [Bol, ch CHR ''>'']) (cleanEmailBody (Some '' > quoted reply''))"
  by code_simp

text \<open>Empty and absent input give the empty string.\<close>

lemma cleanEmailBody_empty: "cleanEmailBody None = [] \<and> cleanEmailBody (Some []) = []"
  by (simp add: cleanEmailBody_def)

text \<open>
  The parts of claim C8 that hold: the cleaned text has no match of the URL pattern and no
  three newlines in a row, and no line of it but the first starts with the quote sign.
\<close>

lemma cleanEmailBody_guarantees:
  "\<not> test urlPattern (cleanEmailBody raw)
   \<and> \<not> sublist [CHR 0x0A, CHR 0x0A, CHR 0x0A] (cleanEmailBody raw)
   \<and> (\<forall>l. isLineTerminator l \<longrightarrow> \<not> sublist [l, CHR ''>''] (cleanEmailBody raw))"
proof (cases "raw = None \<or> raw = Some []")
  case True
  then have "cleanEmailBody raw = []" by (auto simp: cleanEmailBody_def)
  then show ?thesis by (simp add: test_url_iff)
next
  case False
  then obtain body where raw: "raw = Some body" "body \<noteq> []" by (cases raw) auto
  let ?s1 = "replaceAll urlPattern ''[link]'' body"
  let ?s2 = "foldl (\<lambda>c pattern. replaceAll pattern [] c) ?s1 footerPatterns"
  let ?s3 = "replaceAll quotedPattern [] ?s2"
  let ?s4 = "replaceAll wrotePattern [] ?s3"
  let ?s5 = "replaceAll newlines3 [nl, nl] ?s4"
  let ?s6 = "replaceAll blanks2 '' '' ?s5"
  have out: "cleanEmailBody raw = trim ?s6"
    using raw by (simp add: cleanEmailBody_def Let_def)
  have url: "\<not> test urlPattern (trim ?s6)"
  proof
    assume "test urlPattern (trim ?s6)"
    then have "test urlPattern ?s1"
      by (rule url_preserved [rotated]) (rule later_steps_keep, simp_all)
    then show False using url_removed by simp
  qed
  have lines: "\<not> sublist [nl, nl, nl] (trim ?s6)"
  proof
    assume "sublist [nl, nl, nl] (trim ?s6)"
    then have "sublist [nl, nl, nl] ?s6" by (rule trim_keep)
    then have "sublist [nl, nl, nl] ?s5" by (rule blanks_keep [rotated 3]) simp_all
    then show False using newlines3_none [of None ?s4] by (simp add: replaceAll_From)
  qed
  have quoted: "\<not> sublist [l, CHR ''>''] (trim ?s6)" if l: "isLineTerminator l" for l
  proof
    assume "sublist [l, CHR ''>''] (trim ?s6)"
    then have "sublist [l, CHR ''>''] ?s6" by (rule trim_keep)
    then have "sublist [l, CHR ''>''] ?s5"
      by (rule blanks_keep [rotated 3]) (use space_chars(2) [OF l] in simp_all)
    then have "sublist [l, CHR ''>''] ?s4" by (rule newlines_keep [rotated]) simp
    then have "sublist [l, CHR ''>''] ?s3"
      using removal_sublist [OF wrotePattern_eol quote_sign, of l None ?s3]
      by (simp add: replaceAll_From)
    then show False using quoted_none [OF l] by simp
  qed
  show ?thesis unfolding out using url lines quoted by simp
qed

end
